theory Spec2Isabelle
  imports Main "HOL-Library.Multiset"
begin

section \<open>Configuration constants of ue\_docs\_scraper.py\<close>

definition BASE_URL :: string where
  "BASE_URL = ''https://dev.epicgames.com/documentation/en-us/unreal-engine''"

definition REQUEST_DELAY :: nat where
  "REQUEST_DELAY = 1"

definition MAX_RETRIES :: nat where
  "MAX_RETRIES = 3"

section \<open>Python string operations used by the scraper\<close>

text \<open>
  A string is a list of characters, each a code point below 256 (Latin-1); text with
  code points beyond that is outside the model. \<open>startswith s p\<close> is Python's
  \<open>s.startswith(p)\<close> and \<open>contains s sub\<close> is Python's \<open>sub in s\<close>.
\<close>

fun startswith :: "string \<Rightarrow> string \<Rightarrow> bool" where
  "startswith s [] = True"
| "startswith [] (p # ps) = False"
| "startswith (c # cs) (p # ps) = (c = p \<and> startswith cs ps)"

fun contains :: "string \<Rightarrow> string \<Rightarrow> bool" where
  "contains [] sub = (sub = [])"
| "contains (c # cs) sub = (startswith (c # cs) sub \<or> contains cs sub)"

text \<open>
  \<open>is_space\<close> is \<open>str.isspace()\<close> on one character: below 256 these are the code
  points 9 to 13, 28 to 32, 133 (U+0085) and 160 (U+00A0). \<open>strip\<close> is \<open>str.strip()\<close>.
  \<open>lower\<close> is \<open>str.lower()\<close>: below 256 the letters A to Z and the code points 192 to
  222 other than 215 move up by 32. \<open>split_on sep s\<close> is \<open>s.split(sep)\<close> for a
  one-character separator, \<open>join sep xs\<close> is \<open>sep.join(xs)\<close>, and
  \<open>replace old new s\<close> is \<open>s.replace(old, new)\<close> for a non-empty \<open>old\<close> (the
  scraper passes literals only).
\<close>

definition is_space :: "char \<Rightarrow> bool" where
  "is_space c = (c \<in> set [CHR 0x09, CHR 0x0A, CHR 0x0B, CHR 0x0C, CHR 0x0D,
                             CHR 0x1C, CHR 0x1D, CHR 0x1E, CHR 0x1F, CHR 0x20,
                             CHR 0x85, CHR 0xA0])"

definition strip :: "string \<Rightarrow> string" where
  "strip s = rev (dropWhile is_space (rev (dropWhile is_space s)))"

definition lower_char :: "char \<Rightarrow> char" where
  "lower_char c =
     (let n = (of_char c :: nat) in
      if (65 \<le> n \<and> n \<le> 90) \<or> (192 \<le> n \<and> n \<le> 222 \<and> n \<noteq> 215)
      then char_of (n + 32) else c)"

definition lower :: "string \<Rightarrow> string" where
  "lower s = map lower_char s"

fun split_by :: "(char \<Rightarrow> bool) \<Rightarrow> string \<Rightarrow> string list" where
  "split_by P [] = [[]]"
| "split_by P (c # cs) =
     (if P c then [] # split_by P cs
      else (case split_by P cs of [] \<Rightarrow> [[c]] | x # xs \<Rightarrow> (c # x) # xs))"

definition split_on :: "char \<Rightarrow> string \<Rightarrow> string list" where
  "split_on sep s = split_by (\<lambda>c. c = sep) s"

fun join :: "string \<Rightarrow> string list \<Rightarrow> string" where
  "join sep [] = []"
| "join sep [x] = x"
| "join sep (x # y # ys) = x @ sep @ join sep (y # ys)"

fun replace :: "string \<Rightarrow> string \<Rightarrow> string \<Rightarrow> string" where
  "replace (p # ps) new (c # cs) =
     (if startswith (c # cs) (p # ps) then new @ replace (p # ps) new (drop (length ps) cs)
      else c # replace (p # ps) new cs)"
| "replace old new s = s"

text \<open>\<open>str(n)\<close> for a natural number, as in the prefix \<open>f"{i + 1}."\<close>.\<close>

fun show_nat :: "nat \<Rightarrow> string" where
  "show_nat n = (if n < 10 then [char_of (48 + n)] else show_nat (n div 10) @ [char_of (48 + n mod 10)])"

text \<open>\<open>re.sub(r"\\n{3,}", "\\n\\n", s)\<close>: every maximal run of three or more newlines becomes two.\<close>

function collapse_newlines :: "string \<Rightarrow> string" where
  "collapse_newlines [] = []"
| "collapse_newlines (c # cs) =
     (if c = CHR 0x0A then
        (let run = c # takeWhile (\<lambda>x. x = CHR 0x0A) cs in
           (if 3 \<le> length run then [CHR 0x0A, CHR 0x0A] else run)
           @ collapse_newlines (dropWhile (\<lambda>x. x = CHR 0x0A) cs))
      else c # collapse_newlines cs)"
  by pat_completeness auto
termination
  by (relation "measure length") (auto simp: less_Suc_eq_le length_dropWhile_le)

section \<open>The fetcher: cache, retries, backoff\<close>

text \<open>
  The network is outside the program. A call of \<open>self.session.get(url, timeout=30)\<close>
  either returns a response (status code and text) or raises a subclass of
  \<open>requests.RequestException\<close> (named by a string, for instance \<open>''Timeout''\<close>).
  The network may answer differently each time, so it carries a state of its own.
\<close>

datatype response = Response nat string | RequestException string

text \<open>
  The two kinds of \<open>time.sleep\<close> in \<open>_fetch_page\<close>: the rate limiting after a
  successful request and the exponential backoff after a failed one. Durations are seconds.
\<close>

datatype event = Http_get string | Sleep_rate_limit nat | Sleep_backoff nat

text \<open>
  What the scraper is built from: its \<open>use_cache\<close> flag and the library functions it
  calls. \<open>urljoin\<close> is \<open>urllib.parse.urljoin\<close>, which raises \<open>ValueError\<close> on some
  references (for instance \<open>//[\<close>, an authority with an unbalanced bracket);
  \<open>html_parser\<close> is \<open>BeautifulSoup(html, "html.parser")\<close> (defined with the markup tree
  below); \<open>md5_hexdigest\<close> is \<open>hashlib.md5(url.encode()).hexdigest()\<close>.
\<close>

datatype exn = ValueError

datatype node = NavigableString string | Tag string "(string \<times> string) list" "node list"

record 'w env =
  use_cache :: bool
  session_get :: "string \<Rightarrow> 'w \<Rightarrow> response \<times> 'w"
  md5_hexdigest :: "string \<Rightarrow> string"
  html_parser :: "string \<Rightarrow> node list"
  urljoin :: "string \<Rightarrow> string \<Rightarrow> exn + string"

text \<open>
  The state outside the crawl loop: the files of the cache directory (path to content),
  the network, and the trace of network requests and sleeps so far.
\<close>

record 'w sys =
  cache_files :: "string \<rightharpoonup> string"
  net :: 'w
  trace :: "event list"

definition get_cache_path :: "'w env \<Rightarrow> string \<Rightarrow> string" where
  "get_cache_path E url = md5_hexdigest E url @ ''.html''"

text \<open>\<open>response.raise_for_status()\<close> raises \<open>HTTPError\<close> for 4xx and 5xx codes.\<close>

definition raise_for_status :: "nat \<Rightarrow> bool" where
  "raise_for_status code = (400 \<le> code \<and> code < 600)"

text \<open>
  The body of \<open>for attempt in range(MAX_RETRIES)\<close>, as a recursion over the attempts
  that remain. Every \<open>RequestException\<close>, \<open>HTTPError\<close> included, lands in the one
  \<open>except\<close> clause.
\<close>

fun fetch_attempts :: "'w env \<Rightarrow> string \<Rightarrow> nat list \<Rightarrow> 'w sys \<Rightarrow> string option \<times> 'w sys" where
  "fetch_attempts E url [] s = (None, s)"
| "fetch_attempts E url (attempt # rest) s =
     (case session_get E url (net s) of (r, w) \<Rightarrow>
        let s1 = s\<lparr>net := w, trace := trace s @ [Http_get url]\<rparr> in
        (case r of
           Response code text \<Rightarrow>
             if raise_for_status code then
               fetch_attempts E url rest
                 (if attempt < MAX_RETRIES - 1
                  then s1\<lparr>trace := trace s1 @ [Sleep_backoff (2 ^ attempt)]\<rparr> else s1)
             else
               let s2 = (if use_cache E
                         then s1\<lparr>cache_files := (cache_files s1)(get_cache_path E url \<mapsto> text)\<rparr>
                         else s1)
               in (Some text, s2\<lparr>trace := trace s2 @ [Sleep_rate_limit REQUEST_DELAY]\<rparr>)
         | RequestException e \<Rightarrow>
             fetch_attempts E url rest
               (if attempt < MAX_RETRIES - 1
                then s1\<lparr>trace := trace s1 @ [Sleep_backoff (2 ^ attempt)]\<rparr> else s1)))"

definition fetch_page :: "'w env \<Rightarrow> string \<Rightarrow> 'w sys \<Rightarrow> string option \<times> 'w sys" where
  "fetch_page E url s =
     (if use_cache E \<and> cache_files s (get_cache_path E url) \<noteq> None
      then (cache_files s (get_cache_path E url), s)
      else fetch_attempts E url [0..<MAX_RETRIES] s)"

section \<open>The markup tree and the BeautifulSoup operations the scraper calls\<close>

text \<open>
  A parsed document is a tree of tags and strings. A tag has a name, its attributes (a
  dictionary, here an association list read with \<open>map_of\<close>) and its contents. The parser
  returns the contents of the document; the \<open>BeautifulSoup\<close> object itself is the tag
  named \<open>[document]\<close> around them. Comments and other special strings are not
  modelled, and neither is the parser's refusal of markup it cannot read: the parser of
  the model returns a tree for every string.
\<close>

definition soup_of :: "'w env \<Rightarrow> string \<Rightarrow> node" where
  "soup_of E html = Tag ''[document]'' [] (html_parser E html)"

fun get_text :: "node \<Rightarrow> string" where
  "get_text (NavigableString s) = s"
| "get_text (Tag name attrs cs) = concat (map get_text cs)"

fun children :: "node \<Rightarrow> node list" where
  "children (NavigableString s) = []"
| "children (Tag name attrs cs) = cs"

text \<open>The descendants in document order, each with the name of its parent.\<close>

fun descendants :: "node \<Rightarrow> (string \<times> node) list" where
  "descendants (NavigableString s) = []"
| "descendants (Tag name attrs cs) = concat (map (\<lambda>c. (name, c) # descendants c) cs)"

fun is_named :: "string list \<Rightarrow> node \<Rightarrow> bool" where
  "is_named names (NavigableString s) = False"
| "is_named names (Tag name attrs cs) = (name \<in> set names)"

fun get_attr :: "node \<Rightarrow> string \<Rightarrow> string option" where
  "get_attr (NavigableString s) k = None"
| "get_attr (Tag name attrs cs) k = map_of attrs k"

text \<open>
  \<open>class\<close> is a multi-valued attribute: BeautifulSoup stores the list of its
  white-space separated tokens. \<open>get_class\<close> is \<open>element.get("class")\<close>.
\<close>

definition get_class :: "node \<Rightarrow> string list option" where
  "get_class element =
     (case get_attr element ''class'' of None \<Rightarrow> None
      | Some v \<Rightarrow> Some (filter (\<lambda>w. w \<noteq> []) (split_by is_space v)))"

definition has_class :: "string \<Rightarrow> node \<Rightarrow> bool" where
  "has_class c element = (case get_class element of None \<Rightarrow> False | Some cls \<Rightarrow> c \<in> set cls)"

text \<open>\<open>element.find_all(names)\<close> and \<open>element.find(name)\<close>, with the parent's name.\<close>

definition find_all_where :: "(node \<Rightarrow> bool) \<Rightarrow> node \<Rightarrow> (string \<times> node) list" where
  "find_all_where P element = filter (\<lambda>(parent, d). P d) (descendants element)"

definition find_all :: "string list \<Rightarrow> node \<Rightarrow> node list" where
  "find_all names element = map snd (find_all_where (is_named names) element)"

definition find_where :: "(node \<Rightarrow> bool) \<Rightarrow> node \<Rightarrow> (string \<times> node) option" where
  "find_where P element = (case find_all_where P element of [] \<Rightarrow> None | x # xs \<Rightarrow> Some x)"

text \<open>
  \<open>decompose\<close> on every descendant that satisfies \<open>P\<close>: each goes with its subtree.
\<close>

fun decompose_all :: "(node \<Rightarrow> bool) \<Rightarrow> node \<Rightarrow> node" where
  "decompose_all P (NavigableString s) = NavigableString s"
| "decompose_all P (Tag name attrs cs) =
     Tag name attrs (map (decompose_all P) (filter (\<lambda>c. \<not> P c) cs))"

section \<open>The document converter\<close>

text \<open>
  References that do not start with \<open>http://\<close> or \<open>https://\<close> are resolved with
  \<open>urljoin\<close>, whose \<open>ValueError\<close> nothing in the scraper catches.
\<close>

definition resolve :: "'w env \<Rightarrow> string \<Rightarrow> string \<Rightarrow> exn + string" where
  "resolve E base_url href =
     (if \<not> (startswith href ''http://'' \<or> startswith href ''https://'')
      then urljoin E base_url href else Inr href)"

fun sequence :: "(exn + 'a) list \<Rightarrow> exn + 'a list" where
  "sequence [] = Inr []"
| "sequence (x # xs) =
     (case x of Inl e \<Rightarrow> Inl e
      | Inr v \<Rightarrow> (case sequence xs of Inl e \<Rightarrow> Inl e | Inr vs \<Rightarrow> Inr (v # vs)))"

text \<open>One child of \<open>_get_inline_text\<close>.\<close>

fun inline_part :: "'w env \<Rightarrow> string \<Rightarrow> node \<Rightarrow> exn + string" where
  "inline_part E base_url (NavigableString s) = Inr s"
| "inline_part E base_url (Tag name attrs cs) =
     (let child = Tag name attrs cs in
      if name = ''strong'' \<or> name = ''b'' then Inr (''**'' @ get_text child @ ''**'')
      else if name = ''em'' \<or> name = ''i'' then Inr (''*'' @ get_text child @ ''*'')
      else if name = ''code'' then Inr (''`'' @ get_text child @ ''`'')
      else if name = ''a'' then
        (let href = (case get_attr child ''href'' of None \<Rightarrow> [] | Some h \<Rightarrow> h);
             text = get_text child in
         if href \<noteq> [] then
           (case resolve E base_url href of Inl e \<Rightarrow> Inl e
            | Inr href' \<Rightarrow> Inr (''['' @ text @ '']('' @ href' @ '')''))
         else Inr text)
      else Inr (get_text child))"

definition get_inline_text :: "'w env \<Rightarrow> node \<Rightarrow> string \<Rightarrow> exn + string" where
  "get_inline_text E element base_url =
     (case sequence (map (inline_part E base_url) (children element)) of
        Inl e \<Rightarrow> Inl e
      | Inr parts \<Rightarrow> Inr (strip (concat parts)))"

text \<open>\<open>_process_table\<close>: the lines it appends.\<close>

definition row_cells :: "node \<Rightarrow> string list" where
  "row_cells row = map (\<lambda>td. strip (get_text td)) (find_all [''th'', ''td''] row)"

definition row_line :: "string list \<Rightarrow> string" where
  "row_line cells = ''| '' @ join '' | '' cells @ '' |''"

definition process_table :: "node \<Rightarrow> string list" where
  "process_table table =
     (case find_all [''tr''] table of
        [] \<Rightarrow> [[]]
      | header_row # body \<Rightarrow>
          [[]]
          @ (let headers = row_cells header_row in
               if headers \<noteq> []
               then [row_line headers, row_line (replicate (length headers) ''---'')]
               else [])
          @ concat (map (\<lambda>row. let cells = row_cells row in
                                  if cells \<noteq> [] then [row_line cells] else []) body)
          @ [[]])"

text \<open>The language of a code block, from the classes of the first \<open>code\<close> inside.\<close>

fun pick_lang :: "string list \<Rightarrow> string" where
  "pick_lang [] = []"
| "pick_lang (cls # rest) =
     (if startswith cls ''language-'' then replace ''language-'' [] cls
      else if cls \<in> set [''cpp'', ''c++'', ''python'', ''blueprint'', ''ini'', ''json''] then cls
      else pick_lang rest)"

definition pre_lines :: "node \<Rightarrow> string list" where
  "pre_lines element =
     (let code = get_text element;
          lang = (case find_where (is_named [''code'']) element of
                    None \<Rightarrow> []
                  | Some (parent, code_elem) \<Rightarrow>
                      (case get_class code_elem of
                         None \<Rightarrow> []
                       | Some cls \<Rightarrow> pick_lang cls))
      in [[], ''```'' @ lang, strip code, ''```'', []])"

definition heading_lines :: "string \<Rightarrow> node \<Rightarrow> string list" where
  "heading_lines tag element =
     (let level = (of_char (tag ! 1) :: nat) - 48;
          text = strip (get_text element)
      in if text \<noteq> [] then [[], replicate level CHR ''#'' @ '' '' @ text, []] else [])"

definition list_lines :: "'w env \<Rightarrow> string \<Rightarrow> string \<Rightarrow> node \<Rightarrow> exn + string list" where
  "list_lines E base_url tag element =
     (let lis = filter (is_named [''li'']) (children element) in
      case sequence (map (\<lambda>(i, li).
                       case get_inline_text E li base_url of
                         Inl e \<Rightarrow> Inl e
                       | Inr text \<Rightarrow>
                           Inr ((if tag = ''ol'' then show_nat (i + 1) @ ''.'' else ''-'')
                                @ '' '' @ text))
                     (zip [0..<length lis] lis)) of
        Inl e \<Rightarrow> Inl e
      | Inr items \<Rightarrow> Inr ([[]] @ items @ [[]]))"

definition link_lines :: "'w env \<Rightarrow> string \<Rightarrow> node \<Rightarrow> exn + string list" where
  "link_lines E base_url element =
     (let href = (case get_attr element ''href'' of None \<Rightarrow> [] | Some h \<Rightarrow> h);
          text = strip (get_text element)
      in if href \<noteq> [] \<and> text \<noteq> [] then
           (case resolve E base_url href of Inl e \<Rightarrow> Inl e
            | Inr href' \<Rightarrow> Inr [''['' @ text @ '']('' @ href' @ '')''])
         else Inr [])"

definition image_lines :: "'w env \<Rightarrow> string \<Rightarrow> node \<Rightarrow> exn + string list" where
  "image_lines E base_url element =
     (let alt = (case get_attr element ''alt'' of None \<Rightarrow> ''Image'' | Some a \<Rightarrow> a);
          src = (case get_attr element ''src'' of None \<Rightarrow> [] | Some h \<Rightarrow> h)
      in if src \<noteq> [] then
           (case resolve E base_url src of Inl e \<Rightarrow> Inl e
            | Inr src' \<Rightarrow> Inr [''!['' @ alt @ '']('' @ src' @ '')''])
         else Inr [])"

definition is_callout :: "string \<Rightarrow> node \<Rightarrow> bool" where
  "is_callout tag element =
     (tag = ''div'' \<and>
      contains (join '' '' (case get_class element of None \<Rightarrow> [] | Some cls \<Rightarrow> cls)) ''callout'')"

definition blockquote_lines :: "node \<Rightarrow> string list" where
  "blockquote_lines element =
     (let text = strip (get_text element) in
      if text \<noteq> [] then
        [[]] @ map (\<lambda>line. ''> '' @ strip line)
                 (filter (\<lambda>line. strip line \<noteq> []) (split_on CHR 0x0A text)) @ [[]]
      else [])"

definition text_lines :: "node \<Rightarrow> string list" where
  "text_lines element = (let text = strip (get_text element) in if text \<noteq> [] then [text] else [])"

text \<open>
  \<open>_process_element\<close>: the lines appended for one node, or the exception that escapes.
  \<open>parent\<close> is \<open>element.parent.name\<close> (\<open>None\<close> at the root of the document). The
  recursion of the model has no depth limit; the interpreter's \<open>RecursionError\<close> on
  very deep nesting is not modelled.
\<close>

fun process_element :: "'w env \<Rightarrow> string \<Rightarrow> string option \<Rightarrow> node \<Rightarrow> exn + string list"
and process_children :: "'w env \<Rightarrow> string \<Rightarrow> string option \<Rightarrow> node list \<Rightarrow> exn + string list"
where
  "process_element E base_url parent (NavigableString s) = Inr (text_lines (NavigableString s))"
| "process_element E base_url parent (Tag name attrs cs) =
     (let element = Tag name attrs cs; tag = lower name in
      if tag \<in> set [''h1'', ''h2'', ''h3'', ''h4'', ''h5'', ''h6''] then Inr (heading_lines tag element)
      else if tag = ''p'' then
        (case get_inline_text E element base_url of
           Inl e \<Rightarrow> Inl e
         | Inr text \<Rightarrow> Inr (if strip text \<noteq> [] then [[], text, []] else []))
      else if tag = ''pre'' then Inr (pre_lines element)
      else if tag = ''code'' \<and> parent \<noteq> Some ''pre'' then Inr [''`'' @ get_text element @ ''`'']
      else if tag \<in> set [''ul'', ''ol''] then list_lines E base_url tag element
      else if tag = ''table'' then Inr (process_table element)
      else if tag = ''a'' then link_lines E base_url element
      else if tag = ''img'' then image_lines E base_url element
      else if tag = ''blockquote'' \<or> is_callout tag element then Inr (blockquote_lines element)
      else if tag \<in> set [''div'', ''section'', ''article'', ''main'', ''span'', ''body'']
        then process_children E base_url (Some name) cs
      else Inr (text_lines element))"
| "process_children E base_url parent [] = Inr []"
| "process_children E base_url parent (c # cs) =
     (case process_element E base_url parent c of
        Inl e \<Rightarrow> Inl e
      | Inr ls \<Rightarrow>
          (case process_children E base_url parent cs of
             Inl e \<Rightarrow> Inl e
           | Inr ls' \<Rightarrow> Inr (ls @ ls')))"

text \<open>
  The content root of \<open>_html_to_markdown\<close> with its parent's name, and the pruning of
  unwanted elements below it.
\<close>

definition find_content :: "node \<Rightarrow> string option \<times> node" where
  "find_content soup =
     (case find_where (is_named [''main'']) soup of Some (p, c) \<Rightarrow> (Some p, c) | None \<Rightarrow>
      (case find_where (is_named [''article'']) soup of Some (p, c) \<Rightarrow> (Some p, c) | None \<Rightarrow>
      (case find_where (has_class ''content'') soup of Some (p, c) \<Rightarrow> (Some p, c) | None \<Rightarrow>
      (case find_where (is_named [''body'']) soup of Some (p, c) \<Rightarrow> (Some p, c) | None \<Rightarrow>
       (None, soup)))))"

definition prune :: "node \<Rightarrow> node" where
  "prune content =
     fold decompose_all
       [has_class ''breadcrumb'', has_class ''sidebar'', has_class ''toc'', has_class ''navigation'',
        (\<lambda>e. get_attr e ''role'' = Some ''navigation'')]
       (decompose_all (is_named [''script'', ''style'', ''nav'', ''footer'', ''header'', ''aside''])
          content)"

definition html_to_markdown :: "'w env \<Rightarrow> string \<Rightarrow> string \<Rightarrow> exn + string" where
  "html_to_markdown E html base_url =
     (case find_content (soup_of E html) of (parent, content) \<Rightarrow>
        (case process_element E base_url parent (prune content) of
           Inl e \<Rightarrow> Inl e
         | Inr markdown_lines \<Rightarrow>
             Inr (strip (collapse_newlines (join [CHR 0x0A] markdown_lines)))))"

section \<open>The link extractor\<close>

text \<open>The loop of \<open>_extract_links\<close> over the anchors that have an \<open>href\<close>.\<close>

fun extract_links_loop :: "'w env \<Rightarrow> string \<Rightarrow> string list \<Rightarrow> string list \<Rightarrow> exn + string list" where
  "extract_links_loop E base_url [] links = Inr links"
| "extract_links_loop E base_url (href # rest) links =
     (if contains href ''/documentation/en-us/unreal-engine'' \<or> startswith href ''/'' then
        (case urljoin E base_url href of
           Inl e \<Rightarrow> Inl e
         | Inr full_url \<Rightarrow>
             if contains full_url ''dev.epicgames.com/documentation'' then
               (let full_url' = hd (split_on CHR ''?'' (hd (split_on CHR ''#'' full_url))) in
                if full_url' \<notin> set links
                then extract_links_loop E base_url rest (links @ [full_url'])
                else extract_links_loop E base_url rest links)
             else extract_links_loop E base_url rest links)
      else extract_links_loop E base_url rest links)"

definition anchor_hrefs :: "node \<Rightarrow> string list" where
  "anchor_hrefs soup =
     concat (map (\<lambda>a. case get_attr a ''href'' of None \<Rightarrow> [] | Some href \<Rightarrow> [href])
               (find_all [''a''] soup))"

definition extract_links :: "'w env \<Rightarrow> string \<Rightarrow> string \<Rightarrow> exn + string list" where
  "extract_links E html base_url = extract_links_loop E base_url (anchor_hrefs (soup_of E html)) []"

section \<open>Scraping one page\<close>

text \<open>
  The dictionary \<open>scrape_page\<close> returns, without its wall-clock field \<open>scraped_at\<close>.
\<close>

record page =
  page_url :: string
  page_title :: string
  page_markdown :: string
  page_links :: "string list"

definition page_title_of :: "node \<Rightarrow> string" where
  "page_title_of soup =
     (case (case find_where (is_named [''h1'']) soup of
              Some x \<Rightarrow> Some x
            | None \<Rightarrow> find_where (is_named [''title'']) soup) of
        None \<Rightarrow> ''Untitled''
      | Some (parent, title_elem) \<Rightarrow>
          replace '' | Unreal Engine Documentation'' [] (strip (get_text title_elem)))"

text \<open>
  \<open>scrape_page\<close>: \<open>if not html\<close> is true for \<open>None\<close> and for the empty string. An
  exception of the converter or of the link extractor escapes.
\<close>

definition scrape_page :: "'w env \<Rightarrow> string \<Rightarrow> 'w sys \<Rightarrow> (exn + page option) \<times> 'w sys" where
  "scrape_page E u s =
     (case fetch_page E u s of (fetched_html, s') \<Rightarrow>
        (case fetched_html of
           None \<Rightarrow> (Inr None, s')
         | Some html \<Rightarrow>
             if html = [] then (Inr None, s')
             else
               (let title = page_title_of (soup_of E html) in
                case html_to_markdown E html u of
                  Inl e \<Rightarrow> (Inl e, s')
                | Inr md \<Rightarrow>
                    (case extract_links E html u of
                       Inl e \<Rightarrow> (Inl e, s')
                     | Inr ls \<Rightarrow>
                         (Inr (Some \<lparr>page_url = u, page_title = title,
                                     page_markdown = md, page_links = ls\<rparr>), s')))))"

section \<open>The crawl loop of scrape\_topic\<close>

definition TOPIC_SHORTCUTS :: "(string \<times> string) list" where
  "TOPIC_SHORTCUTS =
     [(''behavior-tree'', ''behavior-tree-in-unreal-engine''),
      (''bt'', ''behavior-tree-in-unreal-engine''),
      (''ai'', ''artificial-intelligence''),
      (''ai-perception'', ''ai-perception-in-unreal-engine''),
      (''perception'', ''ai-perception-in-unreal-engine''),
      (''blackboard'', ''blackboard-in-unreal-engine''),
      (''eqs'', ''environment-query-system-in-unreal-engine''),
      (''navigation'', ''navigation-system-in-unreal-engine''),
      (''nav-mesh'', ''navigation-mesh-in-unreal-engine''),
      (''gameplay-ability'', ''gameplay-ability-system-for-unreal-engine''),
      (''gas'', ''gameplay-ability-system-for-unreal-engine''),
      (''enhanced-input'', ''enhanced-input-in-unreal-engine''),
      (''input'', ''enhanced-input-in-unreal-engine''),
      (''niagara'', ''niagara-visual-effects''),
      (''vfx'', ''niagara-visual-effects''),
      (''materials'', ''unreal-engine-materials''),
      (''blueprints'', ''blueprints-visual-scripting-in-unreal-engine''),
      (''bp'', ''blueprints-visual-scripting-in-unreal-engine''),
      (''cpp'', ''programming-with-cplusplus-in-unreal-engine''),
      (''c++'', ''programming-with-cplusplus-in-unreal-engine''),
      (''umg'', ''umg-ui-designer-in-unreal-engine''),
      (''ui'', ''umg-ui-designer-in-unreal-engine''),
      (''widgets'', ''creating-widgets-in-unreal-engine''),
      (''animation'', ''skeletal-mesh-animation-system-in-unreal-engine''),
      (''physics'', ''physics-in-unreal-engine''),
      (''collision'', ''collision-in-unreal-engine''),
      (''networking'', ''networking-and-multiplayer-in-unreal-engine''),
      (''replication'', ''property-replication-in-unreal-engine''),
      (''packaging'', ''packaging-unreal-engine-projects''),
      (''build'', ''packaging-unreal-engine-projects'')]"

definition topic_url :: "string \<Rightarrow> string" where
  "topic_url topic =
     BASE_URL @ ''/'' @ (case map_of TOPIC_SHORTCUTS (lower topic) of
                           None \<Rightarrow> topic | Some topic_slug \<Rightarrow> topic_slug)"

text \<open>
  The variables of the loop: the frontier \<open>to_visit\<close>, the set \<open>visited\<close>, the list
  \<open>scraped\<close>, and the state outside. \<open>raised\<close> holds the exception that ended the loop,
  if one did. \<open>fetched\<close> is a history variable, not a variable of the program: the
  frontier entries on which \<open>scrape_page\<close> was called, in order.
\<close>

record 'w crawl =
  to_visit :: "(string \<times> int) list"
  visited :: "string set"
  scraped :: "page list"
  fetched :: "(string \<times> int) list"
  outside :: "'w sys"
  raised :: "exn option"

definition init_crawl :: "string \<Rightarrow> 'w sys \<Rightarrow> 'w crawl" where
  "init_crawl u s =
     \<lparr>to_visit = [(u, 0)], visited = {}, scraped = [], fetched = [], outside = s, raised = None\<rparr>"

text \<open>One iteration of \<open>while to_visit\<close>.\<close>

definition crawl_step :: "'w env \<Rightarrow> int \<Rightarrow> 'w crawl \<Rightarrow> 'w crawl" where
  "crawl_step E depth c =
     (case to_visit c of
        [] \<Rightarrow> c
      | (current_url, current_depth) # rest \<Rightarrow>
          (let c1 = c\<lparr>to_visit := rest\<rparr> in
           if current_url \<in> visited c1 then c1
           else if current_depth > depth then c1
           else
             (let c2 = c1\<lparr>visited := insert current_url (visited c1),
                          fetched := fetched c1 @ [(current_url, current_depth)]\<rparr> in
              case scrape_page E current_url (outside c2) of
                (Inl e, s') \<Rightarrow> c2\<lparr>outside := s', raised := Some e\<rparr>
              | (Inr None, s') \<Rightarrow> c2\<lparr>outside := s'\<rparr>
              | (Inr (Some result), s') \<Rightarrow>
                  (let c3 = c2\<lparr>outside := s', scraped := scraped c2 @ [result]\<rparr> in
                   if current_depth < depth
                   then c3\<lparr>to_visit := to_visit c3 @
                             map (\<lambda>link. (link, current_depth + 1))
                               (filter (\<lambda>link. link \<notin> visited c3) (page_links result))\<rparr>
                   else c3))))"

text \<open>
  The loop. It ends when the frontier is empty, or when an exception escapes. Every
  iteration removes one entry of the frontier and adds only entries one level deeper, none
  beyond \<open>depth\<close>, so the multiset of the remaining levels decreases.
\<close>

function crawl_loop :: "'w env \<Rightarrow> int \<Rightarrow> 'w crawl \<Rightarrow> 'w crawl" where
  "crawl_loop E depth c =
     (if to_visit c = [] \<or> raised c \<noteq> None then c
      else crawl_loop E depth (crawl_step E depth c))"
  by pat_completeness auto
termination
proof (relation "inv_image (mult1 less_than)
         (\<lambda>(E, depth, c). mset (map (\<lambda>e. nat (depth + 1 - snd e)) (to_visit c)))")
  show "wf (inv_image (mult1 less_than)
         (\<lambda>(E :: 'w env, depth, c :: 'w crawl).
            mset (map (\<lambda>e. nat (depth + 1 - snd e)) (to_visit c))))"
    by (intro wf_inv_image wf_mult1 wf_less_than)
next
  fix E :: "'w env" and depth :: int and c :: "'w crawl"
  assume "\<not> (to_visit c = [] \<or> raised c \<noteq> None)"
  then obtain u d rest where tv: "to_visit c = (u, d) # rest"
    by (cases "to_visit c") auto
  let ?w = "\<lambda>e :: string \<times> int. nat (depth + 1 - snd e)"
  have "\<exists>new. to_visit (crawl_step E depth c) = rest @ new \<and> (\<forall>e \<in> set new. ?w e < ?w (u, d))"
    using tv by (auto simp: crawl_step_def Let_def split: prod.splits sum.splits option.splits)
  then obtain new where new: "to_visit (crawl_step E depth c) = rest @ new"
    and less: "\<forall>e \<in> set new. ?w e < ?w (u, d)" by blast
  have "\<exists>a M0 K. mset (map ?w ((u, d) # rest)) = add_mset a M0 \<and>
           mset (map ?w (rest @ new)) = M0 + K \<and> (\<forall>b. b \<in># K \<longrightarrow> (b, a) \<in> less_than)"
  proof (intro exI conjI)
    show "mset (map ?w ((u, d) # rest)) = add_mset (?w (u, d)) (mset (map ?w rest))" by simp
    show "mset (map ?w (rest @ new)) = mset (map ?w rest) + mset (map ?w new)" by simp
    show "\<forall>b. b \<in># mset (map ?w new) \<longrightarrow> (b, ?w (u, d)) \<in> less_than"
      using less by auto
  qed
  then have "(mset (map ?w (rest @ new)), mset (map ?w ((u, d) # rest))) \<in> mult1 less_than"
    unfolding mult1_def by blast
  then show "((E, depth, crawl_step E depth c), (E, depth, c)) \<in> inv_image (mult1 less_than)
         (\<lambda>(E, depth, c). mset (map (\<lambda>e. nat (depth + 1 - snd e)) (to_visit c)))"
    by (simp add: new tv)
qed

declare crawl_loop.simps [simp del]

text \<open>
  \<open>scrape_topic\<close> returns the list \<open>scraped\<close>, or the exception that escaped the loop.
\<close>

definition scrape_topic :: "'w env \<Rightarrow> string \<Rightarrow> int \<Rightarrow> 'w sys \<Rightarrow> (exn + page list) \<times> 'w sys" where
  "scrape_topic E topic depth s =
     (let c = crawl_loop E depth (init_crawl (topic_url topic) s) in
      (case raised c of Some e \<Rightarrow> Inl e | None \<Rightarrow> Inr (scraped c), outside c))"

section \<open>Notions used in the statements\<close>

text \<open>
  The specification sorts failed attempts into transient ones (timeout, 5xx, connection
  reset) and permanent ones (4xx other than the rate-limit code 429). The program has one
  notion only: an attempt failed when \<open>session.get\<close> or \<open>raise_for_status\<close> raised.
\<close>

definition failed :: "response \<Rightarrow> bool" where
  "failed r = (case r of Response code text \<Rightarrow> raise_for_status code | RequestException e \<Rightarrow> True)"

definition transient :: "response \<Rightarrow> bool" where
  "transient r =
     (case r of Response code text \<Rightarrow> 500 \<le> code \<and> code < 600
      | RequestException e \<Rightarrow> e = ''Timeout'' \<or> e = ''ConnectionError'')"

definition permanent :: "response \<Rightarrow> bool" where
  "permanent r =
     (case r of Response code text \<Rightarrow> 400 \<le> code \<and> code < 500 \<and> code \<noteq> 429
      | RequestException e \<Rightarrow> False)"

text \<open>Whether \<open>_fetch_page\<close> finds the page in the cache.\<close>

definition cache_hit :: "'w env \<Rightarrow> string \<Rightarrow> 'w sys \<Rightarrow> bool" where
  "cache_hit E u s = (use_cache E \<and> cache_files s (get_cache_path E u) \<noteq> None)"

text \<open>
  The invariant of the crawl loop: no URL was fetched twice, the fetched URLs are the
  visited ones, and the pages are those of the fetched URLs that gave a page, in the order
  of fetching.
\<close>

definition crawl_inv :: "'w crawl \<Rightarrow> bool" where
  "crawl_inv c =
     (distinct (map fst (fetched c)) \<and> fst ` set (fetched c) = visited c \<and>
      map page_url (scraped c) =
        filter (\<lambda>u. u \<in> page_url ` set (scraped c)) (map fst (fetched c)))"

text \<open>
  What \<open>_extract_links\<close> keeps of a resolved URL, and the URLs it considers, in the order
  of the anchors: the stripped forms of the resolved references that pass its two tests.
\<close>

definition strip_fragment_query :: "string \<Rightarrow> string" where
  "strip_fragment_query full_url =
     takeWhile (\<lambda>c. c \<noteq> CHR ''?'') (takeWhile (\<lambda>c. c \<noteq> CHR ''#'') full_url)"

definition link_candidates :: "'w env \<Rightarrow> string \<Rightarrow> string list \<Rightarrow> string list" where
  "link_candidates E base_url hrefs =
     concat (map (\<lambda>href.
       if contains href ''/documentation/en-us/unreal-engine'' \<or> startswith href ''/'' then
         (case urljoin E base_url href of
            Inl e \<Rightarrow> []
          | Inr full_url \<Rightarrow>
              if contains full_url ''dev.epicgames.com/documentation''
              then [strip_fragment_query full_url] else [])
       else []) hrefs)"

text \<open>
  The text of a response, and the state after the request that succeeded: the network has
  moved on, the body is in the cache when the cache is on, and the trace has grown by the
  events \<open>evs\<close> and the rate-limiting sleep.
\<close>

definition response_text :: "response \<Rightarrow> string" where
  "response_text r = (case r of Response code content \<Rightarrow> content | RequestException e \<Rightarrow> [])"

definition after_success :: "'w env \<Rightarrow> string \<Rightarrow> response \<Rightarrow> 'w \<Rightarrow> event list \<Rightarrow> 'w sys \<Rightarrow> 'w sys" where
  "after_success E u r w evs s =
     s\<lparr>net := w,
       cache_files := (if use_cache E then (cache_files s)(get_cache_path E u \<mapsto> response_text r)
                       else cache_files s),
       trace := trace s @ evs @ [Sleep_rate_limit REQUEST_DELAY]\<rparr>"

text \<open>
  Tables as the specification sees them. A row is a \<open>tr\<close> whose contents are cells and
  strings; a cell is a \<open>th\<close> or \<open>td\<close> with no row or cell inside; \<open>cell_texts\<close> are
  the stripped texts of a row's own cells. \<open>ragged_table_lines\<close> follows the
  specification's words: the first row gives the header line and a separator of the
  header's length, and every other row gives a line of all of its own cells, whatever the
  header's length. \<open>bars\<close> counts the column bars of a line.
\<close>

fun plain :: "node \<Rightarrow> bool" where
  "plain (NavigableString s) = True"
| "plain (Tag name attrs cs) = (name \<notin> set [''tr'', ''th'', ''td''] \<and> (\<forall>c \<in> set cs. plain c))"

fun is_string :: "node \<Rightarrow> bool" where
  "is_string (NavigableString s) = True"
| "is_string (Tag name attrs cs) = False"

fun is_cell :: "node \<Rightarrow> bool" where
  "is_cell (NavigableString s) = False"
| "is_cell (Tag name attrs cs) = ((name = ''th'' \<or> name = ''td'') \<and> (\<forall>c \<in> set cs. plain c))"

fun is_row :: "node \<Rightarrow> bool" where
  "is_row (NavigableString s) = False"
| "is_row (Tag name attrs cs) = (name = ''tr'' \<and> (\<forall>c \<in> set cs. is_cell c \<or> is_string c))"

definition cell_texts :: "node \<Rightarrow> string list" where
  "cell_texts row = map (\<lambda>c. strip (get_text c)) (filter is_cell (children row))"

definition ragged_table_lines :: "node list \<Rightarrow> string list" where
  "ragged_table_lines rows =
     (case rows of
        [] \<Rightarrow> [[]]
      | header # body \<Rightarrow>
          [[]]
          @ (if cell_texts header \<noteq> []
             then [row_line (cell_texts header),
                   row_line (replicate (length (cell_texts header)) ''---'')]
             else [])
          @ concat (map (\<lambda>row. if cell_texts row \<noteq> [] then [row_line (cell_texts row)] else [])
                      body)
          @ [[]])"

definition bars :: "string \<Rightarrow> nat" where
  "bars line = length (filter (\<lambda>c. c = CHR ''|'') line)"

section \<open>Test fixtures\<close>

text \<open>
  Networks for examples; their state counts the requests answered. \<open>answer_seq\<close> gives
  the listed responses in turn and then a default one; \<open>answer_site\<close> serves a fixed
  table of pages with status 200 and answers 404 elsewhere.
\<close>

definition answer_seq :: "response list \<Rightarrow> response \<Rightarrow> string \<Rightarrow> nat \<Rightarrow> response \<times> nat" where
  "answer_seq rs dflt u w = (if w < length rs then rs ! w else dflt, Suc w)"

definition answer_site :: "(string \<times> string) list \<Rightarrow> string \<Rightarrow> nat \<Rightarrow> response \<times> nat" where
  "answer_site pages u w =
     (case map_of pages u of Some body \<Rightarrow> Response 200 body | None \<Rightarrow> Response 404 [], Suc w)"

text \<open>
  \<open>urljoin\<close> at the references the examples use: an absolute reference with scheme and
  host comes back as it is, and the reference \<open>//[\<close> raises \<open>ValueError\<close>
  (``Invalid IPv6 URL'').
\<close>

definition urljoin_fixture :: "string \<Rightarrow> string \<Rightarrow> exn + string" where
  "urljoin_fixture base ref = (if ref = ''//['' then Inl ValueError else Inr ref)"

text \<open>
  A scraper with the cache on, the identity in place of the hash, and a parser given by
  a table from bodies to the trees \<open>html.parser\<close> builds for them.
\<close>

definition fixture_env ::
  "(string \<Rightarrow> nat \<Rightarrow> response \<times> nat) \<Rightarrow> (string \<times> node list) list \<Rightarrow> nat env" where
  "fixture_env get parsed =
     \<lparr>use_cache = True, session_get = get, md5_hexdigest = (\<lambda>u. u),
      html_parser = (\<lambda>html. case map_of parsed html of None \<Rightarrow> [] | Some t \<Rightarrow> t),
      urljoin = urljoin_fixture\<rparr>"

definition sys0 :: "nat sys" where
  "sys0 = \<lparr>cache_files = Map.empty, net = 0, trace = []\<rparr>"

text \<open>
  The site of the end-to-end scenario: page A links to B and C, page B links to D, pages C
  and D link nowhere. The bodies are the markup served; the trees are what the parser
  builds for them.
\<close>

definition url_A :: string where "url_A = BASE_URL @ ''/a''"
definition url_B :: string where "url_B = BASE_URL @ ''/b''"
definition url_C :: string where "url_C = BASE_URL @ ''/c''"
definition url_D :: string where "url_D = BASE_URL @ ''/d''"

definition body_A :: string where
  "body_A = ''<main><a href='' @ url_B @ ''>B</a><a href='' @ url_C @ ''>C</a></main>''"
definition body_B :: string where
  "body_B = ''<main><a href='' @ url_D @ ''>D</a></main>''"
definition body_C :: string where "body_C = ''<main><p>C</p></main>''"
definition body_D :: string where "body_D = ''<main><p>D</p></main>''"

definition tree_A :: "node list" where
  "tree_A = [Tag ''main'' [] [Tag ''a'' [(''href'', url_B)] [NavigableString ''B''],
                             Tag ''a'' [(''href'', url_C)] [NavigableString ''C'']]]"
definition tree_B :: "node list" where
  "tree_B = [Tag ''main'' [] [Tag ''a'' [(''href'', url_D)] [NavigableString ''D'']]]"
definition tree_C :: "node list" where
  "tree_C = [Tag ''main'' [] [Tag ''p'' [] [NavigableString ''C'']]]"
definition tree_D :: "node list" where
  "tree_D = [Tag ''main'' [] [Tag ''p'' [] [NavigableString ''D'']]]"

definition scenario_env :: "nat env" where
  "scenario_env =
     fixture_env (answer_site [(url_A, body_A), (url_B, body_B), (url_C, body_C), (url_D, body_D)])
       [(body_A, tree_A), (body_B, tree_B), (body_C, tree_C), (body_D, tree_D)]"

text \<open>
  A site where every request is answered 404, the scenario site with page C missing, and
  a site that answers every request with status 200 and an empty body.
\<close>

definition env_404 :: "nat env" where
  "env_404 = fixture_env (answer_seq [] (Response 404 [])) []"


definition env_empty_body :: "nat env" where
  "env_empty_body = fixture_env (answer_seq [] (Response 200 [])) []"

text \<open>
  A table row as \<open>html.parser\<close> builds it, one cell per text, and the table of the
  specification's example: a header of four cells, a line break, a row of four cells and
  a row of three.
\<close>

definition table_row :: "string \<Rightarrow> string list \<Rightarrow> node" where
  "table_row cell_tag cells = Tag ''tr'' [] (map (\<lambda>c. Tag cell_tag [] [NavigableString c]) cells)"

definition ragged_table :: "node list" where
  "ragged_table =
     [table_row ''th'' [''Name'', ''Type'', ''Default'', ''Notes''],
      NavigableString [CHR 0x0A],
      table_row ''td'' [''speed'', ''float'', ''1.0'', ''in m/s''],
      table_row ''td'' [''name'', ''string'', ''none'']]"

text \<open>
  A page with one link to another host whose path holds the text the tests look for.
\<close>

definition url_evil :: string where
  "url_evil = ''https://example.com/dev.epicgames.com/documentation/en-us/unreal-engine/x''"

definition body_evil :: string where
  "body_evil = ''<a href='' @ url_evil @ ''>x</a>''"

definition tree_evil :: "node list" where
  "tree_evil = [Tag ''a'' [(''href'', url_evil)] [NavigableString ''x'']]"

definition links_env :: "nat env" where
  "links_env = fixture_env (answer_seq [] (Response 404 [])) [(body_evil, tree_evil)]"

text \<open>A page whose only link has the reference \<open>//[\<close>.\<close>

definition body_bad :: string where
  "body_bad = ''<main><a href=//[>x</a></main>''"

definition tree_bad :: "node list" where
  "tree_bad = [Tag ''main'' [] [Tag ''a'' [(''href'', ''//['')] [NavigableString ''x'']]]"

definition converter_env :: "nat env" where
  "converter_env = fixture_env (answer_seq [] (Response 404 [])) [(body_bad, tree_bad)]"

section \<open>Properties of the fetcher\<close>

lemma upt_MAX_RETRIES: "[0..<MAX_RETRIES] = [0, 1, 2]"
  by (simp add: MAX_RETRIES_def upt_rec)

lemma fetch_attempts_failed:
  assumes "session_get E u (net s) = (r, w)" and "failed r"
  shows "fetch_attempts E u (attempt # rest) s =
         fetch_attempts E u rest
           (if attempt < MAX_RETRIES - 1
            then s\<lparr>net := w, trace := trace s @ [Http_get u, Sleep_backoff (2 ^ attempt)]\<rparr>
            else s\<lparr>net := w, trace := trace s @ [Http_get u]\<rparr>)"
  using assms by (cases r) (simp_all add: failed_def)

lemma fetch_attempts_ok:
  assumes "session_get E u (net s) = (Response code text, w)" and "\<not> raise_for_status code"
  shows "fetch_attempts E u (attempt # rest) s =
         (Some text,
          s\<lparr>net := w,
            cache_files := (if use_cache E then (cache_files s)(get_cache_path E u \<mapsto> text)
                            else cache_files s),
            trace := trace s @ [Http_get u, Sleep_rate_limit REQUEST_DELAY]\<rparr>)"
  using assms by simp

lemma transient_failed: "transient r \<Longrightarrow> failed r"
  by (cases r) (auto simp: transient_def failed_def raise_for_status_def)

lemma permanent_failed: "permanent r \<Longrightarrow> failed r"
  by (cases r) (auto simp: permanent_def failed_def raise_for_status_def)

lemma fetch_page_miss: "\<not> cache_hit E u s \<Longrightarrow> fetch_page E u s = fetch_attempts E u [0, 1, 2] s"
  by (auto simp only: fetch_page_def cache_hit_def upt_MAX_RETRIES split: if_splits)

lemma all_failed_three:
  assumes "\<forall>w. failed (fst (session_get E u w))"
  shows "\<exists>w. fetch_attempts E u [0, 1, 2] s =
     (None, s\<lparr>net := w, trace := trace s @ [Http_get u, Sleep_backoff (2 ^ 0), Http_get u,
                                            Sleep_backoff (2 ^ 1), Http_get u]\<rparr>)"
proof -
  obtain r1 w1 where g1: "session_get E u (net s) = (r1, w1)" by (cases "session_get E u (net s)")
  obtain r2 w2 where g2: "session_get E u w1 = (r2, w2)" by (cases "session_get E u w1")
  obtain r3 w3 where g3: "session_get E u w2 = (r3, w3)" by (cases "session_get E u w2")
  have f1: "failed r1" using assms g1 by (metis fst_conv)
  have f2: "failed r2" using assms g2 by (metis fst_conv)
  have f3: "failed r3" using assms g3 by (metis fst_conv)
  let ?s1 = "s\<lparr>net := w1, trace := trace s @ [Http_get u, Sleep_backoff (2 ^ 0)]\<rparr>"
  let ?s2 = "?s1\<lparr>net := w2, trace := trace ?s1 @ [Http_get u, Sleep_backoff (2 ^ 1)]\<rparr>"
  have 1: "fetch_attempts E u [0, 1, 2] s = fetch_attempts E u [1, 2] ?s1"
    using fetch_attempts_failed [OF g1 f1, of 0 "[1, 2]"] by (simp add: MAX_RETRIES_def)
  have 2: "fetch_attempts E u [1, 2] ?s1 = fetch_attempts E u [2] ?s2"
    using fetch_attempts_failed [of E u ?s1 r2 w2 1 "[2]"] g2 f2 by (simp add: MAX_RETRIES_def)
  have 3: "fetch_attempts E u [2] ?s2 = (None, ?s2\<lparr>net := w3, trace := trace ?s2 @ [Http_get u]\<rparr>)"
    using fetch_attempts_failed [of E u ?s2 r3 w3 2 "[]"] g3 f3 by (simp add: MAX_RETRIES_def)
  show ?thesis unfolding 1 2 3 by (intro exI [of _ w3]) simp
qed

lemma fetch_attempts_Some_trace:
  "fetch_attempts E u as s = (Some body, s') \<Longrightarrow>
   \<exists>evs. trace s' = trace s @ evs @ [Sleep_rate_limit REQUEST_DELAY] \<and>
         Http_get u \<in> set evs \<and> (\<forall>d. Sleep_rate_limit d \<notin> set evs)"
proof (induction as arbitrary: s)
  case Nil
  then show ?case by simp
next
  case (Cons attempt rest)
  obtain r w where g: "session_get E u (net s) = (r, w)" by (cases "session_get E u (net s)")
  show ?case
  proof (cases "failed r")
    case True
    let ?s1 = "if attempt < MAX_RETRIES - 1
            then s\<lparr>net := w, trace := trace s @ [Http_get u, Sleep_backoff (2 ^ attempt)]\<rparr>
            else s\<lparr>net := w, trace := trace s @ [Http_get u]\<rparr>"
    have "fetch_attempts E u rest ?s1 = (Some body, s')"
      using Cons.prems fetch_attempts_failed [OF g True, of attempt rest] by simp
    from Cons.IH [OF this] obtain evs where
      evs: "trace s' = trace ?s1 @ evs @ [Sleep_rate_limit REQUEST_DELAY]"
        "Http_get u \<in> set evs" "\<forall>d. Sleep_rate_limit d \<notin> set evs" by blast
    obtain pre where pre: "trace ?s1 = trace s @ pre" "\<forall>d. Sleep_rate_limit d \<notin> set pre"
      by (cases "attempt < MAX_RETRIES - 1") auto
    show ?thesis
      by (rule exI [of _ "pre @ evs"]) (use evs pre in auto)
  next
    case False
    then obtain code content where r: "r = Response code content" "\<not> raise_for_status code"
      by (cases r) (auto simp: failed_def)
    have "s' = s\<lparr>net := w,
            cache_files := (if use_cache E then (cache_files s)(get_cache_path E u \<mapsto> content)
                            else cache_files s),
            trace := trace s @ [Http_get u, Sleep_rate_limit REQUEST_DELAY]\<rparr>"
      using Cons.prems fetch_attempts_ok [of E u s code content w attempt rest] g r by simp
    then show ?thesis
      by (intro exI [of _ "[Http_get u]"]) simp
  qed
qed

text \<open>
  Claim C5. When the page is not served from the cache and every network attempt fails
  with a transient failure, \<open>_fetch_page\<close> makes exactly \<open>MAX_RETRIES = 3\<close> requests,
  sleeps \<open>2 ^ attempt\<close> seconds after the first and the second (attempts 0 and 1) and not
  after the third, and returns no body. The program has no error values: its failure is
  \<open>None\<close>.
\<close>

theorem fetch_page_transient_exhausts_retries:
  assumes "\<not> cache_hit E u s" and "\<forall>w. transient (fst (session_get E u w))"
  shows "\<exists>w. fetch_page E u s =
           (None, s\<lparr>net := w, trace := trace s @ [Http_get u, Sleep_backoff (2 ^ 0), Http_get u,
                                                  Sleep_backoff (2 ^ 1), Http_get u]\<rparr>)"
proof -
  have "\<forall>w. failed (fst (session_get E u w))"
    using assms(2) transient_failed by blast
  from all_failed_three [OF this, of s] show ?thesis
    by (simp only: fetch_page_miss [OF assms(1)])
qed

theorem fetch_page_transient_exhausts_retries_witness:
  "\<not> cache_hit (fixture_env (answer_seq [] (Response 503 [])) []) ''u'' sys0 \<and>
   (\<forall>w. transient (fst (session_get (fixture_env (answer_seq [] (Response 503 [])) []) ''u'' w))) \<and>
   (\<exists>w. fetch_page (fixture_env (answer_seq [] (Response 503 [])) []) ''u'' sys0 =
      (None, sys0\<lparr>net := w, trace := trace sys0 @ [Http_get ''u'', Sleep_backoff (2 ^ 0), Http_get ''u'',
                                                  Sleep_backoff (2 ^ 1), Http_get ''u'']\<rparr>))"
proof -
  have h1: "\<not> cache_hit (fixture_env (answer_seq [] (Response 503 [])) []) ''u'' sys0"
    by (simp add: cache_hit_def fixture_env_def sys0_def)
  have h2: "\<forall>w. transient (fst (session_get (fixture_env (answer_seq [] (Response 503 [])) []) ''u'' w))"
    by (simp add: fixture_env_def answer_seq_def transient_def)
  show ?thesis
    using h1 h2 fetch_page_transient_exhausts_retries [OF h1 h2] by blast
qed

text \<open>
  Claim C2, as stated, fails: against an endpoint that answers 404 to every request,
  \<open>_fetch_page\<close> makes all three requests, with both backoff sleeps.
\<close>

theorem fetch_page_permanent_counterexample:
  "permanent (fst (session_get (fixture_env (answer_seq [] (Response 404 [])) []) ''u'' (net sys0))) \<and>
   \<not> cache_hit (fixture_env (answer_seq [] (Response 404 [])) []) ''u'' sys0 \<and>
   trace (snd (fetch_page (fixture_env (answer_seq [] (Response 404 [])) []) ''u'' sys0)) =
     [Http_get ''u'', Sleep_backoff 1, Http_get ''u'', Sleep_backoff 2, Http_get ''u'']"
proof -
  let ?E = "fixture_env (answer_seq [] (Response 404 [])) []"
  have miss: "\<not> cache_hit ?E ''u'' sys0"
    by (simp add: cache_hit_def fixture_env_def sys0_def)
  have "permanent (fst (session_get ?E ''u'' (net sys0)))"
    by (simp add: fixture_env_def answer_seq_def permanent_def)
  moreover have "trace (snd (fetch_attempts ?E ''u'' [0, 1, 2] sys0)) =
     [Http_get ''u'', Sleep_backoff 1, Http_get ''u'', Sleep_backoff 2, Http_get ''u'']"
    by (simp add: fixture_env_def answer_seq_def sys0_def raise_for_status_def MAX_RETRIES_def)
  ultimately show ?thesis
    using miss by (simp only: fetch_page_miss [OF miss] simp_thms)
qed

lemma fetch_attempts_not_failed:
  assumes "session_get E u (net s) = (r, w)" and "\<not> failed r"
  shows "fetch_attempts E u (attempt # rest) s = (Some (response_text r), after_success E u r w [Http_get u] s)"
  using assms by (cases r) (simp_all add: failed_def response_text_def after_success_def)

text \<open>
  Claim C2, amended. A failed attempt is retried whatever its kind, a permanent failure
  (a 4xx status) like any other. On a cache miss the outcome is fixed by the answers to
  the three requests in turn: the first one that did not fail ends the fetch with its
  body, after a sleep of \<open>2 ^ attempt\<close> seconds behind each failed attempt before it and
  one rate-limiting sleep; the fetch returns no body only when all three have failed.
\<close>

theorem fetch_page_retries_every_failure:
  assumes "\<not> cache_hit E u s"
    and "session_get E u (net s) = (r1, w1)"
    and "session_get E u w1 = (r2, w2)"
    and "session_get E u w2 = (r3, w3)"
  shows "(permanent r \<longrightarrow> failed r) \<and>
         fetch_page E u s =
           (if \<not> failed r1 then
              (Some (response_text r1), after_success E u r1 w1 [Http_get u] s)
            else if \<not> failed r2 then
              (Some (response_text r2),
               after_success E u r2 w2 [Http_get u, Sleep_backoff (2 ^ 0), Http_get u] s)
            else if \<not> failed r3 then
              (Some (response_text r3),
               after_success E u r3 w3
                 [Http_get u, Sleep_backoff (2 ^ 0), Http_get u, Sleep_backoff (2 ^ 1), Http_get u] s)
            else
              (None, s\<lparr>net := w3,
                       trace := trace s @ [Http_get u, Sleep_backoff (2 ^ 0), Http_get u,
                                           Sleep_backoff (2 ^ 1), Http_get u]\<rparr>))"
proof -
  let ?s1 = "s\<lparr>net := w1, trace := trace s @ [Http_get u, Sleep_backoff (2 ^ 0)]\<rparr>"
  let ?s2 = "?s1\<lparr>net := w2, trace := trace ?s1 @ [Http_get u, Sleep_backoff (2 ^ 1)]\<rparr>"
  have start: "fetch_page E u s = fetch_attempts E u [0, 1, 2] s"
    by (rule fetch_page_miss [OF assms(1)])
  have g2: "session_get E u (net ?s1) = (r2, w2)" and g3: "session_get E u (net ?s2) = (r3, w3)"
    using assms(3,4) by simp_all
  have a1: "failed r1 \<Longrightarrow> fetch_attempts E u [0, 1, 2] s = fetch_attempts E u [1, 2] ?s1"
    using fetch_attempts_failed [OF assms(2), of 0 "[1, 2]"] by (simp add: MAX_RETRIES_def)
  have a2: "failed r2 \<Longrightarrow> fetch_attempts E u [1, 2] ?s1 = fetch_attempts E u [2] ?s2"
    using fetch_attempts_failed [OF g2, of 1 "[2]"] by (simp add: MAX_RETRIES_def)
  have a3: "failed r3 \<Longrightarrow> fetch_attempts E u [2] ?s2 =
      (None, s\<lparr>net := w3, trace := trace s @ [Http_get u, Sleep_backoff (2 ^ 0), Http_get u,
                                           Sleep_backoff (2 ^ 1), Http_get u]\<rparr>)"
    using fetch_attempts_failed [OF g3, of 2 "[]"] by (simp add: MAX_RETRIES_def)
  have b1: "\<not> failed r1 \<Longrightarrow> fetch_attempts E u [0, 1, 2] s =
      (Some (response_text r1), after_success E u r1 w1 [Http_get u] s)"
    by (rule fetch_attempts_not_failed [OF assms(2)])
  have b2: "\<not> failed r2 \<Longrightarrow> fetch_attempts E u [1, 2] ?s1 =
      (Some (response_text r2),
       after_success E u r2 w2 [Http_get u, Sleep_backoff (2 ^ 0), Http_get u] s)"
    using fetch_attempts_not_failed [OF g2, of 1 "[2]"] by (simp add: after_success_def)
  have b3: "\<not> failed r3 \<Longrightarrow> fetch_attempts E u [2] ?s2 =
      (Some (response_text r3),
       after_success E u r3 w3
         [Http_get u, Sleep_backoff (2 ^ 0), Http_get u, Sleep_backoff (2 ^ 1), Http_get u] s)"
    using fetch_attempts_not_failed [OF g3, of 2 "[]"] by (simp add: after_success_def)
  have "permanent r \<longrightarrow> failed r"
    using permanent_failed by blast
  moreover have "fetch_page E u s =
           (if \<not> failed r1 then
              (Some (response_text r1), after_success E u r1 w1 [Http_get u] s)
            else if \<not> failed r2 then
              (Some (response_text r2),
               after_success E u r2 w2 [Http_get u, Sleep_backoff (2 ^ 0), Http_get u] s)
            else if \<not> failed r3 then
              (Some (response_text r3),
               after_success E u r3 w3
                 [Http_get u, Sleep_backoff (2 ^ 0), Http_get u, Sleep_backoff (2 ^ 1), Http_get u] s)
            else
              (None, s\<lparr>net := w3,
                       trace := trace s @ [Http_get u, Sleep_backoff (2 ^ 0), Http_get u,
                                           Sleep_backoff (2 ^ 1), Http_get u]\<rparr>))"
  proof (cases "failed r1")
    case False
    then show ?thesis using start b1 by simp
  next
    case f1: True
    show ?thesis
    proof (cases "failed r2")
      case False
      then show ?thesis using start f1 a1 b2 by simp
    next
      case f2: True
      show ?thesis
      proof (cases "failed r3")
        case False
        then show ?thesis using start f1 f2 a1 a2 b3 by simp
      next
        case True
        then show ?thesis using start f1 f2 a1 a2 a3 by simp
      qed
    qed
  qed
  ultimately show ?thesis by blast
qed

theorem fetch_page_retries_every_failure_witness:
  "\<not> cache_hit (fixture_env (answer_seq [Response 404 [], Response 404 []] (Response 200 ''ok'')) [])
      ''u'' sys0 \<and>
   permanent (Response 404 []) \<and> failed (Response 404 []) \<and> \<not> failed (Response 200 ''ok'') \<and>
   fetch_page (fixture_env (answer_seq [Response 404 [], Response 404 []] (Response 200 ''ok'')) [])
      ''u'' sys0 =
     (Some ''ok'', \<lparr>cache_files = [''u.html'' \<mapsto> ''ok''], net = 3,
                   trace = [Http_get ''u'', Sleep_backoff 1, Http_get ''u'', Sleep_backoff 2,
                            Http_get ''u'', Sleep_rate_limit 1]\<rparr>)"
proof -
  let ?E = "fixture_env (answer_seq [Response 404 [], Response 404 []] (Response 200 ''ok'')) []"
  have h1: "\<not> cache_hit ?E ''u'' sys0"
    by (simp add: cache_hit_def fixture_env_def sys0_def)
  have g1: "session_get ?E ''u'' (net sys0) = (Response 404 [], 1)"
    and g2: "session_get ?E ''u'' 1 = (Response 404 [], 2)"
    and g3: "session_get ?E ''u'' 2 = (Response 200 ''ok'', 3)"
    by (simp_all add: fixture_env_def answer_seq_def sys0_def)
  have p: "permanent (Response 404 [])"
    by (simp add: permanent_def)
  have f: "failed (Response 404 [])" "\<not> failed (Response 200 ''ok'')"
    by (simp_all add: failed_def raise_for_status_def)
  show ?thesis
    using h1 p f fetch_page_retries_every_failure [OF h1 g1 g2 g3, of "Response 404 []"]
    by (simp add: after_success_def response_text_def fixture_env_def sys0_def get_cache_path_def
        REQUEST_DELAY_def)
qed

text \<open>
  Claim C6. With the cache on and the page in it, \<open>_fetch_page\<close> returns the cached body
  and leaves the state as it was: no request and no sleep is added to the trace. A fetch
  that goes to the network and returns a body has made at least one request and has slept
  the rate-limiting delay exactly once, as its last action.
\<close>

theorem fetch_page_cache_hit_no_delay:
  "(use_cache E \<and> cache_files s (get_cache_path E u) = Some body \<longrightarrow>
      fetch_page E u s = (Some body, s)) \<and>
   (\<not> cache_hit E u s \<and> fetch_page E u s = (Some body, s') \<longrightarrow>
      (\<exists>evs. trace s' = trace s @ evs @ [Sleep_rate_limit REQUEST_DELAY] \<and>
             Http_get u \<in> set evs \<and> (\<forall>d. Sleep_rate_limit d \<notin> set evs)))"
proof (intro conjI impI)
  assume "use_cache E \<and> cache_files s (get_cache_path E u) = Some body"
  then show "fetch_page E u s = (Some body, s)"
    by (simp add: fetch_page_def)
next
  assume a: "\<not> cache_hit E u s \<and> fetch_page E u s = (Some body, s')"
  then have "fetch_attempts E u [0, 1, 2] s = (Some body, s')"
    using fetch_page_miss [of E u s] by metis
  then show "\<exists>evs. trace s' = trace s @ evs @ [Sleep_rate_limit REQUEST_DELAY] \<and>
             Http_get u \<in> set evs \<and> (\<forall>d. Sleep_rate_limit d \<notin> set evs)"
    by (rule fetch_attempts_Some_trace)
qed

theorem fetch_page_cache_hit_no_delay_witness:
  "fetch_page (fixture_env (answer_seq [] (Response 200 ''net'')) []) ''u''
     (sys0\<lparr>cache_files := [''u.html'' \<mapsto> ''cached'']\<rparr>) =
     (Some ''cached'', sys0\<lparr>cache_files := [''u.html'' \<mapsto> ''cached'']\<rparr>) \<and>
   \<not> cache_hit (fixture_env (answer_seq [] (Response 200 ''net'')) []) ''u'' sys0 \<and>
   fst (fetch_page (fixture_env (answer_seq [] (Response 200 ''net'')) []) ''u'' sys0) = Some ''net'' \<and>
   (\<exists>evs. trace (snd (fetch_page (fixture_env (answer_seq [] (Response 200 ''net'')) []) ''u'' sys0)) =
            trace sys0 @ evs @ [Sleep_rate_limit REQUEST_DELAY] \<and>
          Http_get ''u'' \<in> set evs \<and> (\<forall>d. Sleep_rate_limit d \<notin> set evs))"
proof -
  let ?E = "fixture_env (answer_seq [] (Response 200 ''net'')) []"
  let ?hit = "sys0\<lparr>cache_files := [''u.html'' \<mapsto> ''cached'']\<rparr>"
  have c: "use_cache ?E \<and> cache_files ?hit (get_cache_path ?E ''u'') = Some ''cached''"
    by (simp add: fixture_env_def get_cache_path_def)
  have 1: "fetch_page ?E ''u'' ?hit = (Some ''cached'', ?hit)"
    using fetch_page_cache_hit_no_delay [of ?E ?hit "''u''" "''cached''"] c by blast
  have miss: "\<not> cache_hit ?E ''u'' sys0"
    by (simp add: cache_hit_def fixture_env_def sys0_def)
  have "fetch_attempts ?E ''u'' [0, 1, 2] sys0 =
      (Some ''net'', \<lparr>cache_files = [''u.html'' \<mapsto> ''net''], net = 1,
                     trace = [Http_get ''u'', Sleep_rate_limit REQUEST_DELAY]\<rparr>)"
    by (simp add: fixture_env_def answer_seq_def sys0_def raise_for_status_def get_cache_path_def)
  then have 2: "fetch_page ?E ''u'' sys0 =
      (Some ''net'', \<lparr>cache_files = [''u.html'' \<mapsto> ''net''], net = 1,
                     trace = [Http_get ''u'', Sleep_rate_limit REQUEST_DELAY]\<rparr>)"
    by (simp only: fetch_page_miss [OF miss])
  have 3: "fst (fetch_page ?E ''u'' sys0) = Some ''net''"
    by (simp add: 2)
  have "\<exists>evs. trace (snd (fetch_page ?E ''u'' sys0)) =
            trace sys0 @ evs @ [Sleep_rate_limit REQUEST_DELAY] \<and>
          Http_get ''u'' \<in> set evs \<and> (\<forall>d. Sleep_rate_limit d \<notin> set evs)"
    using fetch_page_cache_hit_no_delay [of ?E sys0 "''u''" "''net''" "snd (fetch_page ?E ''u'' sys0)"]
      miss 3 by (metis prod.collapse)
  then show ?thesis using 1 miss 3 by blast
qed

section \<open>Properties of the crawl loop\<close>

lemma scrape_page_url: "scrape_page E u s = (Inr (Some p), s') \<Longrightarrow> page_url p = u"
  by (auto simp: scrape_page_def Let_def split: prod.splits option.splits if_splits sum.splits)

lemma crawl_loop_stop: "to_visit c = [] \<or> raised c \<noteq> None \<Longrightarrow> crawl_loop E depth c = c"
  by (subst crawl_loop.simps) simp

lemma crawl_loop_step:
  "to_visit c \<noteq> [] \<Longrightarrow> raised c = None \<Longrightarrow>
   crawl_loop E depth c = crawl_loop E depth (crawl_step E depth c)"
  by (subst crawl_loop.simps) simp

lemma crawl_loop_invariant:
  assumes "P c"
    and "\<And>c'. P c' \<Longrightarrow> to_visit c' \<noteq> [] \<Longrightarrow> raised c' = None \<Longrightarrow> P (crawl_step E depth c')"
  shows "P (crawl_loop E depth c)"
  using assms
proof (induction E depth c rule: crawl_loop.induct)
  case (1 E depth c)
  show ?case
  proof (cases "to_visit c = [] \<or> raised c \<noteq> None")
    case True
    then show ?thesis using "1.prems"(1) by (simp add: crawl_loop_stop)
  next
    case False
    then have nv: "to_visit c \<noteq> []" "raised c = None" by auto
    have "P (crawl_step E depth c)"
      by (rule "1.prems"(2) [OF "1.prems"(1) nv])
    then have "P (crawl_loop E depth (crawl_step E depth c))"
      using "1.IH" [OF False] "1.prems"(2) by blast
    then show ?thesis by (simp only: crawl_loop_step [OF nv])
  qed
qed

lemma crawl_inv_init: "crawl_inv (init_crawl u s)"
  by (simp add: crawl_inv_def init_crawl_def)

lemma filter_fresh:
  assumes "u \<notin> set xs"
  shows "filter (\<lambda>x. x \<in> insert u S) xs = filter (\<lambda>x. x \<in> S) xs"
  using assms by (induction xs) auto

lemma crawl_inv_step:
  assumes "crawl_inv c"
  shows "crawl_inv (crawl_step E depth c)"
proof (cases "to_visit c")
  case Nil
  then show ?thesis using assms by (simp add: crawl_step_def)
next
  case (Cons e rest)
  obtain u d where e: "e = (u, d)" by (cases e)
  show ?thesis
  proof (cases "u \<in> visited c \<or> d > depth")
    case True
    then have "crawl_step E depth c = c\<lparr>to_visit := rest\<rparr>"
      using Cons e by (auto simp: crawl_step_def Let_def)
    then show ?thesis using assms by (simp add: crawl_inv_def)
  next
    case False
    have eq: "map page_url (scraped c) =
        filter (\<lambda>u. u \<in> page_url ` set (scraped c)) (map fst (fetched c))"
      and vis: "fst ` set (fetched c) = visited c"
      using assms unfolding crawl_inv_def by blast+
    have "set (map page_url (scraped c)) \<subseteq> set (map fst (fetched c))"
      by (subst eq) (rule filter_is_subset)
    then have sub: "page_url ` set (scraped c) \<subseteq> visited c"
      using vis by simp
    have fresh: "u \<notin> fst ` set (fetched c)" "u \<notin> page_url ` set (scraped c)"
      using False sub vis by blast+
    obtain r s' where sp: "scrape_page E u (outside c) = (r, s')"
      by (cases "scrape_page E u (outside c)")
    show ?thesis
    proof (cases r)
      case (Inl x)
      then have "crawl_step E depth c =
        c\<lparr>to_visit := rest, visited := insert u (visited c), fetched := fetched c @ [(u, d)],
          outside := s', raised := Some x\<rparr>"
        using Cons e False sp by (simp add: crawl_step_def)
      then show ?thesis using assms fresh by (simp add: crawl_inv_def)
    next
      case (Inr po)
      show ?thesis
      proof (cases po)
        case None
        then have "crawl_step E depth c =
          c\<lparr>to_visit := rest, visited := insert u (visited c), fetched := fetched c @ [(u, d)],
            outside := s'\<rparr>"
          using Cons e False sp Inr by (simp add: crawl_step_def)
        then show ?thesis using assms fresh by (simp add: crawl_inv_def)
      next
        case (Some p)
        have pu: "page_url p = u" using sp Inr Some scrape_page_url by blast
        let ?tv = "if d < depth
                   then rest @ map (\<lambda>link. (link, d + 1))
                          (filter (\<lambda>link. link \<notin> insert u (visited c)) (page_links p))
                   else rest"
        have "crawl_step E depth c =
          c\<lparr>to_visit := ?tv, visited := insert u (visited c), fetched := fetched c @ [(u, d)],
            outside := s', scraped := scraped c @ [p]\<rparr>"
          using Cons e False sp Inr Some by (simp add: crawl_step_def Let_def)
        moreover have "filter (\<lambda>x. x \<in> insert u (page_url ` set (scraped c))) (map fst (fetched c)) =
              filter (\<lambda>x. x \<in> page_url ` set (scraped c)) (map fst (fetched c))"
          using fresh(1) by (intro filter_fresh) simp
        ultimately show ?thesis using assms fresh pu by (simp add: crawl_inv_def)
      qed
    qed
  qed
qed

lemma crawl_inv_loop: "crawl_inv (crawl_loop E depth (init_crawl u s))"
  by (rule crawl_loop_invariant [where P = crawl_inv]) (simp_all add: crawl_inv_init crawl_inv_step)

text \<open>
  Claim C1. In every crawl, whatever the network answers and whether or not the loop ends
  with an exception, \<open>scrape_page\<close> is called at most once for a URL: the list of the
  frontier entries that were fetched has no URL twice, hence no URL at two depths, and its
  URLs are exactly the visited ones. (One call may still issue up to \<open>MAX_RETRIES\<close>
  requests.)
\<close>

theorem crawl_fetches_each_url_once:
  "distinct (map fst (fetched (crawl_loop E depth (init_crawl u s)))) \<and>
   inj_on fst (set (fetched (crawl_loop E depth (init_crawl u s)))) \<and>
   fst ` set (fetched (crawl_loop E depth (init_crawl u s))) =
     visited (crawl_loop E depth (init_crawl u s))"
  using crawl_inv_loop [of E depth u s] by (simp add: crawl_inv_def distinct_map)

lemma crawl_step_empty: "to_visit c = [] \<Longrightarrow> crawl_step E depth c = c"
  by (simp add: crawl_step_def)

lemma crawl_step_skip:
  assumes "to_visit c = (u, d) # rest" and "u \<in> visited c \<or> d > depth"
  shows "crawl_step E depth c = c\<lparr>to_visit := rest\<rparr>"
  using assms by (auto simp: crawl_step_def Let_def)

lemma crawl_step_page:
  assumes "to_visit c = (u, d) # rest" and "u \<notin> visited c" and "d \<le> depth"
    and "scrape_page E u (outside c) = (Inr (Some p), s')"
  shows "crawl_step E depth c =
         c\<lparr>to_visit := (if d < depth
                         then rest @ map (\<lambda>link. (link, d + 1))
                                (filter (\<lambda>link. link \<notin> insert u (visited c)) (page_links p))
                         else rest),
           visited := insert u (visited c), scraped := scraped c @ [p],
           fetched := fetched c @ [(u, d)], outside := s'\<rparr>"
  using assms by (simp add: crawl_step_def Let_def)

lemma crawl_step_no_page:
  assumes "to_visit c = (u, d) # rest" and "u \<notin> visited c" and "d \<le> depth"
    and "scrape_page E u (outside c) = (Inr None, s')"
  shows "crawl_step E depth c =
         c\<lparr>to_visit := rest, visited := insert u (visited c),
           fetched := fetched c @ [(u, d)], outside := s'\<rparr>"
  using assms by (simp add: crawl_step_def Let_def)

lemma crawl_step_raise:
  assumes "to_visit c = (u, d) # rest" and "u \<notin> visited c" and "d \<le> depth"
    and "scrape_page E u (outside c) = (Inl e, s')"
  shows "crawl_step E depth c =
         c\<lparr>to_visit := rest, visited := insert u (visited c),
           fetched := fetched c @ [(u, d)], outside := s', raised := Some e\<rparr>"
  using assms by (simp add: crawl_step_def Let_def)

text \<open>
  Claim C4. In a crawl of depth 1 from a page A whose links are B and C, where B links to
  D (four different URLs) and the three pages are scraped successfully, exactly A, B and
  C are fetched, in this order, and their pages are the result. D is never fetched and is
  never put on the frontier: at no iteration of the loop does \<open>to_visit\<close> hold it,
  because links are enqueued only from a page whose depth is below the maximum.
\<close>

theorem crawl_depth_one_scenario:
  assumes "distinct [A, B, C, D]"
    and "scrape_page E A s = (Inr (Some pA), sA)" and "page_links pA = [B, C]"
    and "scrape_page E B sA = (Inr (Some pB), sB)" and "D \<in> set (page_links pB)"
    and "scrape_page E C sB = (Inr (Some pC), sC)"
  shows "crawl_loop E 1 (init_crawl A s) =
           \<lparr>to_visit = [], visited = {A, B, C}, scraped = [pA, pB, pC],
            fetched = [(A, 0), (B, 1), (C, 1)], outside = sC, raised = None\<rparr> \<and>
         (\<forall>n. D \<notin> fst ` set (to_visit ((crawl_step E 1 ^^ n) (init_crawl A s)))) \<and>
         (A = topic_url topic \<longrightarrow> scrape_topic E topic 1 s = (Inr [pA, pB, pC], sC))"
proof -
  let ?c0 = "init_crawl A s"
  let ?c1 = "\<lparr>to_visit = [(B, 1), (C, 1)], visited = {A}, scraped = [pA],
              fetched = [(A, 0)], outside = sA, raised = None\<rparr>"
  let ?c2 = "\<lparr>to_visit = [(C, 1)], visited = {A, B}, scraped = [pA, pB],
              fetched = [(A, 0), (B, 1)], outside = sB, raised = None\<rparr>"
  let ?c3 = "\<lparr>to_visit = [], visited = {A, B, C}, scraped = [pA, pB, pC],
              fetched = [(A, 0), (B, 1), (C, 1)], outside = sC, raised = None\<rparr>"
  have ne: "A \<noteq> B" "A \<noteq> C" "B \<noteq> C" "D \<noteq> A" "D \<noteq> B" "D \<noteq> C"
    using assms(1) by auto
  have s0: "crawl_step E 1 ?c0 = ?c1"
    using crawl_step_page [of ?c0 A 0 "[]" 1 E pA sA] assms(2,3) ne
    by (simp add: init_crawl_def)
  have s1: "crawl_step E 1 ?c1 = ?c2"
    using crawl_step_page [of ?c1 B 1 "[(C, 1)]" 1 E pB sB] assms(4) ne
    by (simp add: insert_commute)
  have s2: "crawl_step E 1 ?c2 = ?c3"
    using crawl_step_page [of ?c2 C 1 "[]" 1 E pC sC] assms(6) ne
    by (simp add: insert_commute)
  have s3: "crawl_step E 1 ?c3 = ?c3"
    by (simp add: crawl_step_empty)
  have "crawl_loop E 1 ?c0 = crawl_loop E 1 ?c1"
    using crawl_loop_step [of ?c0 E 1] by (simp add: s0) (simp add: init_crawl_def)
  also have "\<dots> = crawl_loop E 1 ?c2"
    using crawl_loop_step [of ?c1 E 1] by (simp add: s1)
  also have "\<dots> = crawl_loop E 1 ?c3"
    using crawl_loop_step [of ?c2 E 1] by (simp add: s2)
  also have "\<dots> = ?c3"
    by (simp add: crawl_loop_stop)
  finally have final: "crawl_loop E 1 ?c0 = ?c3" .
  have "(crawl_step E 1 ^^ n) ?c0 \<in> {?c0, ?c1, ?c2, ?c3}" for n
  proof (induction n)
    case 0
    then show ?case by simp
  next
    case (Suc n)
    then show ?case using s0 s1 s2 s3 by auto
  qed
  moreover have "D \<notin> fst ` set (to_visit c)" if "c \<in> {?c0, ?c1, ?c2, ?c3}" for c
    using that ne by (auto simp: init_crawl_def)
  ultimately have "\<forall>n. D \<notin> fst ` set (to_visit ((crawl_step E 1 ^^ n) ?c0))"
    by blast
  moreover have "A = topic_url topic \<longrightarrow> scrape_topic E topic 1 s = (Inr [pA, pB, pC], sC)"
    using final by (auto simp: scrape_topic_def Let_def)
  ultimately show ?thesis using final by blast
qed

lemma scenario_urls: "distinct [url_A, url_B, url_C, url_D]" "url_A = topic_url ''a''"
  by code_simp+

lemma scenario_page_A:
  "fst (scrape_page scenario_env url_A sys0) =
     Inr (Some \<lparr>page_url = url_A, page_title = ''Untitled'',
       page_markdown = ''[B]('' @ url_B @ '')'' @ [CHR 0x0A] @ ''[C]('' @ url_C @ '')'',
       page_links = [url_B, url_C]\<rparr>)"
  by code_simp

lemma scenario_page_B:
  "fst (scrape_page scenario_env url_B (snd (scrape_page scenario_env url_A sys0))) =
     Inr (Some \<lparr>page_url = url_B, page_title = ''Untitled'',
       page_markdown = ''[D]('' @ url_D @ '')'', page_links = [url_D]\<rparr>)"
  by code_simp

lemma scenario_page_C:
  "fst (scrape_page scenario_env url_C
     (snd (scrape_page scenario_env url_B (snd (scrape_page scenario_env url_A sys0))))) =
     Inr (Some \<lparr>page_url = url_C, page_title = ''Untitled'',
       page_markdown = ''C'', page_links = []\<rparr>)"
  by code_simp

theorem crawl_depth_one_scenario_witness:
  "distinct [url_A, url_B, url_C, url_D] \<and>
   map page_url (scraped (crawl_loop scenario_env 1 (init_crawl url_A sys0))) = [url_A, url_B, url_C] \<and>
   fetched (crawl_loop scenario_env 1 (init_crawl url_A sys0)) = [(url_A, 0), (url_B, 1), (url_C, 1)] \<and>
   visited (crawl_loop scenario_env 1 (init_crawl url_A sys0)) = {url_A, url_B, url_C} \<and>
   (\<forall>n. url_D \<notin> fst ` set (to_visit ((crawl_step scenario_env 1 ^^ n) (init_crawl url_A sys0)))) \<and>
   map page_url (projr (fst (scrape_topic scenario_env ''a'' 1 sys0))) = [url_A, url_B, url_C]"
proof -
  let ?pA = "\<lparr>page_url = url_A, page_title = ''Untitled'',
       page_markdown = ''[B]('' @ url_B @ '')'' @ [CHR 0x0A] @ ''[C]('' @ url_C @ '')'',
       page_links = [url_B, url_C]\<rparr>"
  let ?pB = "\<lparr>page_url = url_B, page_title = ''Untitled'',
       page_markdown = ''[D]('' @ url_D @ '')'', page_links = [url_D]\<rparr>"
  let ?pC = "\<lparr>page_url = url_C, page_title = ''Untitled'',
       page_markdown = ''C'', page_links = []\<rparr>"
  let ?sA = "snd (scrape_page scenario_env url_A sys0)"
  let ?sB = "snd (scrape_page scenario_env url_B ?sA)"
  let ?sC = "snd (scrape_page scenario_env url_C ?sB)"
  have a: "scrape_page scenario_env url_A sys0 = (Inr (Some ?pA), ?sA)"
    using scenario_page_A by (simp add: prod_eq_iff)
  have b: "scrape_page scenario_env url_B ?sA = (Inr (Some ?pB), ?sB)"
    using scenario_page_B by (simp add: prod_eq_iff)
  have c: "scrape_page scenario_env url_C ?sB = (Inr (Some ?pC), ?sC)"
    using scenario_page_C by (simp add: prod_eq_iff)
  have la: "page_links ?pA = [url_B, url_C]" and lb: "url_D \<in> set (page_links ?pB)"
    by simp_all
  show ?thesis
    using crawl_depth_one_scenario [OF scenario_urls(1) a la b lb c, of "''a''"] scenario_urls
    by simp
qed





lemma html_to_markdown_empty:
  assumes "html_parser E [] = []"
  shows "html_to_markdown E [] u = Inr []"
proof -
  have "soup_of E [] = Tag ''[document]'' [] []"
    by (simp add: soup_of_def assms)
  moreover have "find_content (Tag ''[document]'' [] []) = (None, Tag ''[document]'' [] [])"
    by (simp add: find_content_def find_where_def find_all_where_def)
  moreover have "prune (Tag ''[document]'' [] []) = Tag ''[document]'' [] []"
    by (simp add: prune_def)
  moreover have "lower ''[document]'' = ''[document]''"
    by code_simp
  then have "process_element E u None (Tag ''[document]'' [] []) = Inr []"
    by (simp add: is_callout_def text_lines_def strip_def)
  ultimately show ?thesis
    by (simp add: html_to_markdown_def strip_def)
qed

text \<open>
  Claim C10. When the fetch returns the empty string, \<open>scrape_page\<close> returns
  \<open>None\<close>, as it does when the fetch fails: the iteration of the crawl loop marks the
  URL visited and adds no page and no frontier entry. Yet the converter, given the empty
  document, returns the empty markdown without an error.
\<close>

theorem scrape_page_empty_body:
  "(fetch_page E u s = (Some [], s') \<longrightarrow> scrape_page E u s = (Inr None, s')) \<and>
   (fetch_page E u s = (None, s') \<longrightarrow> scrape_page E u s = (Inr None, s')) \<and>
   (fetch_page E u (outside c) = (Some [], s') \<and> to_visit c = (u, d) # rest \<and>
    u \<notin> visited c \<and> d \<le> depth \<longrightarrow>
      crawl_step E depth c =
        c\<lparr>to_visit := rest, visited := insert u (visited c),
          fetched := fetched c @ [(u, d)], outside := s'\<rparr>) \<and>
   (html_parser E [] = [] \<longrightarrow> html_to_markdown E [] u = Inr [])"
proof (intro conjI impI)
  assume "fetch_page E u s = (Some [], s')"
  then show "scrape_page E u s = (Inr None, s')"
    by (simp add: scrape_page_def)
next
  assume "fetch_page E u s = (None, s')"
  then show "scrape_page E u s = (Inr None, s')"
    by (simp add: scrape_page_def)
next
  assume a: "fetch_page E u (outside c) = (Some [], s') \<and> to_visit c = (u, d) # rest \<and>
    u \<notin> visited c \<and> d \<le> depth"
  then have "scrape_page E u (outside c) = (Inr None, s')"
    by (simp add: scrape_page_def)
  then show "crawl_step E depth c =
        c\<lparr>to_visit := rest, visited := insert u (visited c),
          fetched := fetched c @ [(u, d)], outside := s'\<rparr>"
    using a by (intro crawl_step_no_page) simp_all
next
  assume "html_parser E [] = []"
  then show "html_to_markdown E [] u = Inr []"
    by (rule html_to_markdown_empty)
qed

theorem scrape_page_empty_body_witness:
  "fst (fetch_page env_empty_body (topic_url ''a'') sys0) = Some [] \<and>
   fst (scrape_page env_empty_body (topic_url ''a'') sys0) = Inr None \<and>
   fst (fetch_page env_404 (topic_url ''a'') sys0) = None \<and>
   fst (scrape_page env_404 (topic_url ''a'') sys0) = Inr None \<and>
   scraped (crawl_step env_empty_body 1 (init_crawl (topic_url ''a'') sys0)) = [] \<and>
   to_visit (crawl_step env_empty_body 1 (init_crawl (topic_url ''a'') sys0)) = [] \<and>
   visited (crawl_step env_empty_body 1 (init_crawl (topic_url ''a'') sys0)) = {topic_url ''a''} \<and>
   html_parser env_empty_body [] = [] \<and>
   html_to_markdown env_empty_body [] (topic_url ''a'') = Inr []"
proof -
  let ?u = "topic_url ''a''"
  let ?s = "snd (fetch_page env_empty_body ?u sys0)"
  let ?t = "snd (fetch_page env_404 ?u sys0)"
  let ?c = "init_crawl ?u sys0 :: nat crawl"
  have f1: "fst (fetch_page env_empty_body ?u sys0) = Some []"
    by code_simp
  then have h1: "fetch_page env_empty_body ?u sys0 = (Some [], ?s)"
    by (simp add: prod_eq_iff)
  have f2: "fst (fetch_page env_404 ?u sys0) = None"
    by code_simp
  then have h2: "fetch_page env_404 ?u sys0 = (None, ?t)"
    by (simp add: prod_eq_iff)
  have h3: "fetch_page env_empty_body ?u (outside ?c) = (Some [], ?s) \<and> to_visit ?c = (?u, 0) # [] \<and>
    ?u \<notin> visited ?c \<and> (0 :: int) \<le> 1"
    using h1 by (simp add: init_crawl_def)
  have h4: "html_parser env_empty_body [] = []"
    by (simp add: env_empty_body_def fixture_env_def)
  have 1: "scrape_page env_empty_body ?u sys0 = (Inr None, ?s)"
    using scrape_page_empty_body [of env_empty_body ?u sys0 ?s] h1 by blast
  have 2: "scrape_page env_404 ?u sys0 = (Inr None, ?t)"
    using scrape_page_empty_body [of env_404 ?u sys0 ?t] h2 by blast
  have 3: "crawl_step env_empty_body 1 ?c =
        ?c\<lparr>to_visit := [], visited := insert ?u (visited ?c),
          fetched := fetched ?c @ [(?u, 0)], outside := ?s\<rparr>"
    using scrape_page_empty_body [of env_empty_body ?u _ ?s ?c 0 "[]" 1] h3 by blast
  have 4: "html_to_markdown env_empty_body [] ?u = Inr []"
    using scrape_page_empty_body [of env_empty_body ?u] h4 by blast
  show ?thesis
    using f1 f2 h4 4 by (simp add: 1 2 3) (simp add: init_crawl_def)
qed

section \<open>Properties of the converter and of the link extractor\<close>

lemma find_all_string: "find_all names (NavigableString s) = []"
  by (simp add: find_all_def find_all_where_def)

lemma find_all_Tag:
  "find_all names (Tag name attrs cs) =
     concat (map (\<lambda>c. (if is_named names c then [c] else []) @ find_all names c) cs)"
  by (induction cs) (auto simp: find_all_def find_all_where_def)

lemma plain_find_all:
  assumes "plain n" and "set names \<subseteq> {''tr'', ''th'', ''td''}"
  shows "find_all names n = [] \<and> \<not> is_named names n"
  using assms
proof (induction n)
  case (NavigableString s)
  then show ?case by (simp add: find_all_string)
next
  case (Tag name attrs cs)
  have "\<forall>c \<in> set cs. find_all names c = [] \<and> \<not> is_named names c"
    using Tag by auto
  then have "concat (map (\<lambda>c. (if is_named names c then [c] else []) @ find_all names c) cs) = []"
    by (induction cs) auto
  moreover have "name \<notin> set names"
    using Tag.prems by auto
  ultimately show ?case by (simp add: find_all_Tag)
qed

lemma cell_find_all:
  assumes "is_cell c" and "set names \<subseteq> {''tr'', ''th'', ''td''}"
  shows "find_all names c = []"
proof (cases c)
  case (NavigableString s)
  then show ?thesis by (simp add: find_all_string)
next
  case (Tag name attrs cs)
  then have "\<forall>d \<in> set cs. find_all names d = [] \<and> \<not> is_named names d"
    using assms plain_find_all by auto
  then have "concat (map (\<lambda>c. (if is_named names c then [c] else []) @ find_all names c) cs) = []"
    by (induction cs) auto
  then show ?thesis using Tag by (simp add: find_all_Tag)
qed

lemma row_cells_of_row:
  assumes "is_row row"
  shows "row_cells row = cell_texts row"
proof (cases row)
  case (NavigableString s)
  then show ?thesis using assms by simp
next
  case (Tag name attrs cs)
  then have ok: "\<forall>c \<in> set cs. is_cell c \<or> is_string c"
    using assms by simp
  have "concat (map (\<lambda>c. (if is_named [''th'', ''td''] c then [c] else [])
                           @ find_all [''th'', ''td''] c) cs) = filter is_cell cs"
    using ok
  proof (induction cs)
    case Nil
    then show ?case by simp
  next
    case (Cons c cs)
    have "(if is_named [''th'', ''td''] c then [c] else []) @ find_all [''th'', ''td''] c =
          (if is_cell c then [c] else [])"
    proof (cases "is_cell c")
      case True
      then have "find_all [''th'', ''td''] c = []"
        by (intro cell_find_all) auto
      moreover have "is_named [''th'', ''td''] c"
        using True by (cases c) auto
      ultimately show ?thesis using True by simp
    next
      case False
      then have "is_string c" using Cons.prems by simp
      then show ?thesis using False by (cases c) (simp_all add: find_all_string)
    qed
    then show ?case using Cons by simp
  qed
  then show ?thesis
    using Tag by (simp add: row_cells_def cell_texts_def find_all_Tag)
qed

lemma row_find_all_tr:
  assumes "is_row row"
  shows "find_all [''tr''] row = []"
proof (cases row)
  case (NavigableString s)
  then show ?thesis using assms by simp
next
  case (Tag name attrs cs)
  have "\<forall>c \<in> set cs. find_all [''tr''] c = [] \<and> \<not> is_named [''tr''] c"
  proof
    fix c assume c: "c \<in> set cs"
    then have "is_cell c \<or> is_string c" using assms Tag by simp
    then show "find_all [''tr''] c = [] \<and> \<not> is_named [''tr''] c"
    proof
      assume ic: "is_cell c"
      then have "find_all [''tr''] c = []" by (intro cell_find_all) auto
      moreover have "\<not> is_named [''tr''] c" using ic by (cases c) auto
      ultimately show ?thesis by simp
    next
      assume "is_string c"
      then show ?thesis by (cases c) (simp_all add: find_all_string)
    qed
  qed
  then have "concat (map (\<lambda>c. (if is_named [''tr''] c then [c] else []) @ find_all [''tr''] c) cs) = []"
    by (induction cs) auto
  then show ?thesis using Tag by (simp add: find_all_Tag)
qed

lemma table_find_all_tr:
  assumes "\<forall>k \<in> set kids. is_row k \<or> is_string k"
  shows "find_all [''tr''] (Tag name attrs kids) = filter is_row kids"
proof -
  have "concat (map (\<lambda>c. (if is_named [''tr''] c then [c] else []) @ find_all [''tr''] c) kids) =
        filter is_row kids"
    using assms
  proof (induction kids)
    case Nil
    then show ?case by simp
  next
    case (Cons k kids)
    have "(if is_named [''tr''] k then [k] else []) @ find_all [''tr''] k =
          (if is_row k then [k] else [])"
    proof (cases "is_row k")
      case True
      moreover have "is_named [''tr''] k" using True by (cases k) auto
      ultimately show ?thesis by (simp add: row_find_all_tr)
    next
      case False
      then have "is_string k" using Cons.prems by simp
      then show ?thesis using False by (cases k) (simp_all add: find_all_string)
    qed
    then show ?case using Cons by simp
  qed
  then show ?thesis by (simp add: find_all_Tag)
qed

lemma bars_join:
  assumes "cells \<noteq> []" and "\<forall>t \<in> set cells. CHR ''|'' \<notin> set t"
  shows "bars (join '' | '' cells) = length cells - 1"
  using assms
proof (induction "'' | ''" cells rule: join.induct)
  case 1
  then show ?case by simp
next
  case (2 x)
  then have "filter (\<lambda>c. c = CHR ''|'') x = []"
    by (auto simp: filter_empty_conv)
  then show ?case by (simp add: bars_def)
next
  case (3 x y ys)
  then have "filter (\<lambda>c. c = CHR ''|'') x = []"
    by (auto simp: filter_empty_conv)
  moreover have "bars (join '' | '' (y # ys)) = length (y # ys) - 1"
    using 3 by simp
  ultimately show ?case by (simp add: bars_def)
qed

lemma bars_row_line:
  assumes "cells \<noteq> []" and "\<forall>t \<in> set cells. CHR ''|'' \<notin> set t"
  shows "bars (row_line cells) = length cells + 1"
proof -
  have "bars (row_line cells) = 2 + bars (join '' | '' cells)"
    by (simp add: bars_def row_line_def)
  then show ?thesis
    using bars_join [OF assms] assms(1) by (cases cells) simp_all
qed

text \<open>
  Claim C9. For every table whose contents are rows and strings, the converter gives the
  lines of \<open>ragged_table_lines\<close>: the header line and its separator from the first
  row, then one line for every other row that has cells, made of all of that row's own
  cells. The header's length is used for the separator only; no row is padded or cut to
  it. When no cell text holds a bar, a row of n cells gives a line with n + 1 bars.
\<close>

theorem table_rows_keep_their_cells:
  assumes "\<forall>k \<in> set kids. is_row k \<or> is_string k"
  shows "process_element E base_url parent (Tag ''table'' attrs kids) =
           Inr (ragged_table_lines (filter is_row kids)) \<and>
         (\<forall>row \<in> set (filter is_row kids).
            row_cells row = cell_texts row \<and>
            length (cell_texts row) = length (filter is_cell (children row)) \<and>
            (cell_texts row \<noteq> [] \<and> (\<forall>t \<in> set (cell_texts row). CHR ''|'' \<notin> set t) \<longrightarrow>
               bars (row_line (cell_texts row)) = length (cell_texts row) + 1))"
proof -
  have rows: "find_all [''tr''] (Tag ''table'' attrs kids) = filter is_row kids"
    by (rule table_find_all_tr [OF assms])
  have cells: "\<forall>row \<in> set (filter is_row kids). row_cells row = cell_texts row"
    using row_cells_of_row by simp
  have "process_table (Tag ''table'' attrs kids) = ragged_table_lines (filter is_row kids)"
  proof (cases "filter is_row kids")
    case Nil
    then show ?thesis by (simp add: process_table_def rows ragged_table_lines_def)
  next
    case (Cons header body)
    then have h: "row_cells header = cell_texts header"
      and b: "\<forall>row \<in> set body. row_cells row = cell_texts row"
      using cells by simp_all
    have "map (\<lambda>row. let cells = row_cells row in if cells \<noteq> [] then [row_line cells] else []) body =
          map (\<lambda>row. if cell_texts row \<noteq> [] then [row_line (cell_texts row)] else []) body"
      using b by (simp add: Let_def)
    then have "concat (map (\<lambda>row. let cells = row_cells row in
                                    if cells \<noteq> [] then [row_line cells] else []) body) =
          concat (map (\<lambda>row. if cell_texts row \<noteq> [] then [row_line (cell_texts row)] else [])
                    body)"
      by (rule arg_cong)
    then show ?thesis
      unfolding process_table_def rows Cons ragged_table_lines_def
      by (simp add: h Let_def)
  qed
  moreover have "lower ''table'' = ''table''"
    by code_simp
  ultimately have "process_element E base_url parent (Tag ''table'' attrs kids) =
           Inr (ragged_table_lines (filter is_row kids))"
    by simp
  then show ?thesis
    using cells bars_row_line by (simp add: cell_texts_def)
qed

theorem table_rows_keep_their_cells_witness:
  "process_element env_404 [] None (Tag ''table'' [] ragged_table) =
     Inr [[], ''| Name | Type | Default | Notes |'', ''| --- | --- | --- | --- |'',
          ''| speed | float | 1.0 | in m/s |'', ''| name | string | none |'', []] \<and>
   length (cell_texts (table_row ''th'' [''Name'', ''Type'', ''Default'', ''Notes''])) = 4 \<and>
   length (cell_texts (table_row ''td'' [''name'', ''string'', ''none''])) = 3 \<and>
   bars ''| name | string | none |'' = 4"
proof -
  let ?short = "table_row ''td'' [''name'', ''string'', ''none'']"
  have h: "\<forall>k \<in> set ragged_table. is_row k \<or> is_string k"
    by code_simp
  have lines: "ragged_table_lines (filter is_row ragged_table) =
     [[], ''| Name | Type | Default | Notes |'', ''| --- | --- | --- | --- |'',
      ''| speed | float | 1.0 | in m/s |'', ''| name | string | none |'', []]"
    by code_simp
  have m: "?short \<in> set (filter is_row ragged_table)"
    by code_simp
  have c: "cell_texts ?short = [''name'', ''string'', ''none'']"
    by code_simp
  have nb: "cell_texts ?short \<noteq> [] \<and> (\<forall>t \<in> set (cell_texts ?short). CHR ''|'' \<notin> set t)"
    by code_simp
  have l4: "length (cell_texts (table_row ''th'' [''Name'', ''Type'', ''Default'', ''Notes''])) = 4"
    by code_simp
  have rl: "row_line [''name'', ''string'', ''none''] = ''| name | string | none |''"
    by code_simp
  note t = table_rows_keep_their_cells [OF h, of env_404 "[]" None "[]"]
  have 1: "process_element env_404 [] None (Tag ''table'' [] ragged_table) =
     Inr (ragged_table_lines (filter is_row ragged_table))"
    using t by blast
  have "bars (row_line (cell_texts ?short)) = length (cell_texts ?short) + 1"
    using t m nb by blast
  then have 2: "bars ''| name | string | none |'' = 4"
    by (simp only: c rl) simp
  have 3: "length (cell_texts ?short) = 3"
    by (simp only: c) simp
  show ?thesis
    using 1 2 3 l4 by (simp only: lines simp_thms)
qed

lemma split_by_not_Nil: "split_by P s \<noteq> []"
  by (induction s) (auto split: list.splits)

lemma hd_split_by: "hd (split_by P s) = takeWhile (\<lambda>c. \<not> P c) s"
  by (induction s) (auto simp: split_by_not_Nil split: list.splits)

lemma hd_split_on: "hd (split_on sep s) = takeWhile (\<lambda>c. c \<noteq> sep) s"
  by (simp add: split_on_def hd_split_by)

lemma strip_fragment_query_eq:
  "hd (split_on CHR ''?'' (hd (split_on CHR ''#'' full_url))) = strip_fragment_query full_url"
  by (simp add: hd_split_on strip_fragment_query_def)

lemma strip_fragment_query_clean:
  "CHR ''#'' \<notin> set (strip_fragment_query u)" "CHR ''?'' \<notin> set (strip_fragment_query u)"
proof -
  show "CHR ''?'' \<notin> set (strip_fragment_query u)"
    unfolding strip_fragment_query_def by (metis (mono_tags, lifting) set_takeWhileD)
  have "CHR ''#'' \<notin> set (takeWhile (\<lambda>c. c \<noteq> CHR ''#'') u)"
    by (metis (mono_tags, lifting) set_takeWhileD)
  then show "CHR ''#'' \<notin> set (strip_fragment_query u)"
    unfolding strip_fragment_query_def by (metis (mono_tags, lifting) set_takeWhileD)
qed

lemma remdups_later: "c \<in> set ys \<Longrightarrow> remdups (xs @ c # ys) = remdups (xs @ ys)"
  by (induction xs) auto

lemma extract_links_loop_Inr:
  assumes "distinct acc" and "extract_links_loop E base_url hrefs acc = Inr links"
  shows "links = rev (remdups (rev (acc @ link_candidates E base_url hrefs)))"
  using assms
proof (induction hrefs arbitrary: acc)
  case Nil
  then show ?case by (simp add: link_candidates_def distinct_remdups_id)
next
  case (Cons href rest)
  let ?cs = "link_candidates E base_url rest"
  show ?case
  proof (cases "contains href ''/documentation/en-us/unreal-engine'' \<or> startswith href ''/''")
    case False
    then have "link_candidates E base_url (href # rest) = ?cs"
      by (simp add: link_candidates_def)
    moreover have "extract_links_loop E base_url rest acc = Inr links"
      using Cons.prems(2) False by simp
    ultimately show ?thesis using Cons.IH [OF Cons.prems(1)] by simp
  next
    case True
    show ?thesis
    proof (cases "urljoin E base_url href")
      case (Inl e)
      then show ?thesis using Cons.prems(2) True by simp
    next
      case (Inr full_url)
      show ?thesis
      proof (cases "contains full_url ''dev.epicgames.com/documentation''")
        case False
        then have "link_candidates E base_url (href # rest) = ?cs"
          using True Inr by (simp add: link_candidates_def)
        moreover have "extract_links_loop E base_url rest acc = Inr links"
          using Cons.prems(2) True Inr False by simp
        ultimately show ?thesis using Cons.IH [OF Cons.prems(1)] by simp
      next
        case c: True
        let ?n = "strip_fragment_query full_url"
        have cands: "link_candidates E base_url (href # rest) = ?n # ?cs"
          using True Inr c by (simp add: link_candidates_def)
        show ?thesis
        proof (cases "?n \<in> set acc")
          case True
          then have "extract_links_loop E base_url rest acc = Inr links"
            using Cons.prems(2) \<open>contains href ''/documentation/en-us/unreal-engine'' \<or> startswith href ''/''\<close>
              Inr c by (simp add: strip_fragment_query_eq)
          then have "links = rev (remdups (rev (acc @ ?cs)))"
            using Cons.IH [OF Cons.prems(1)] by simp
          moreover have "remdups (rev ?cs @ ?n # rev acc) = remdups (rev ?cs @ rev acc)"
            using True by (intro remdups_later) simp
          ultimately show ?thesis by (simp add: cands)
        next
          case False
          then have "extract_links_loop E base_url rest (acc @ [?n]) = Inr links"
            using Cons.prems(2) \<open>contains href ''/documentation/en-us/unreal-engine'' \<or> startswith href ''/''\<close>
              Inr c by (simp add: strip_fragment_query_eq)
          moreover have "distinct (acc @ [?n])"
            using False Cons.prems(1) by simp
          ultimately have "links = rev (remdups (rev ((acc @ [?n]) @ ?cs)))"
            using Cons.IH by blast
          then show ?thesis by (simp add: cands)
        qed
      qed
    qed
  qed
qed

lemma link_candidates_mem:
  "l \<in> set (link_candidates E base_url hrefs) \<Longrightarrow>
   \<exists>href full_url. href \<in> set hrefs \<and>
     (contains href ''/documentation/en-us/unreal-engine'' \<or> startswith href ''/'') \<and>
     urljoin E base_url href = Inr full_url \<and>
     contains full_url ''dev.epicgames.com/documentation'' \<and>
     l = strip_fragment_query full_url"
  by (auto simp: link_candidates_def split: if_splits sum.splits) metis+

text \<open>
  Claim C8 at a failing input. The comment in \<open>_extract_links\<close> says ``Only follow UE
  documentation links'', yet the scope test looks for the text
  \<open>dev.epicgames.com/documentation\<close> anywhere in the resolved URL. For a page with a
  link to another host whose path holds this text, the link is returned, and it is under
  no prefix of the documentation site.
\<close>

theorem extract_links_keeps_foreign_host:
  "extract_links links_env body_evil url_A = Inr [url_evil] \<and>
   \<not> startswith url_evil BASE_URL \<and>
   \<not> startswith url_evil ''https://dev.epicgames.com/documentation''"
  by code_simp

text \<open>
  What \<open>_extract_links\<close> does on every input on which it returns: its output has no
  fragment, no query string and no duplicate, and it is the list of the candidates in the
  order of their first occurrence.
\<close>

lemma extract_links_normalized:
  assumes "extract_links E html base_url = Inr links"
  shows "distinct links \<and>
         (\<forall>l \<in> set links. CHR ''#'' \<notin> set l \<and> CHR ''?'' \<notin> set l) \<and>
         links = rev (remdups (rev (link_candidates E base_url (anchor_hrefs (soup_of E html))))) \<and>
         (\<forall>l \<in> set links. \<exists>href full_url.
            href \<in> set (anchor_hrefs (soup_of E html)) \<and>
            (contains href ''/documentation/en-us/unreal-engine'' \<or> startswith href ''/'') \<and>
            urljoin E base_url href = Inr full_url \<and>
            contains full_url ''dev.epicgames.com/documentation'' \<and>
            l = strip_fragment_query full_url)"
proof -
  let ?cs = "link_candidates E base_url (anchor_hrefs (soup_of E html))"
  have eq: "links = rev (remdups (rev ?cs))"
    using extract_links_loop_Inr [of "[]" E base_url "anchor_hrefs (soup_of E html)" links] assms
    by (simp add: extract_links_def)
  then have mem: "set links = set ?cs" by simp
  have d: "distinct links" using eq by simp
  have ex: "\<forall>l \<in> set links. \<exists>href full_url.
            href \<in> set (anchor_hrefs (soup_of E html)) \<and>
            (contains href ''/documentation/en-us/unreal-engine'' \<or> startswith href ''/'') \<and>
            urljoin E base_url href = Inr full_url \<and>
            contains full_url ''dev.epicgames.com/documentation'' \<and>
            l = strip_fragment_query full_url"
    using mem link_candidates_mem by blast
  then have "\<forall>l \<in> set links. CHR ''#'' \<notin> set l \<and> CHR ''?'' \<notin> set l"
    using strip_fragment_query_clean by metis
  then show ?thesis using d eq ex by blast
qed

text \<open>
  Claim C7 at a failing input. Nothing in the converter catches the \<open>ValueError\<close> that
  \<open>urljoin\<close> raises on a malformed reference: the conversion of a page whose link has
  the reference \<open>//[\<close> ends with this exception and returns no document, and so do the
  link extraction and the whole crawl that meets this page.
\<close>

theorem html_to_markdown_raises_on_bad_reference:
  "html_parser converter_env body_bad =
     [Tag ''main'' [] [Tag ''a'' [(''href'', ''//['')] [NavigableString ''x'']]] \<and>
   urljoin converter_env url_A ''//['' = Inl ValueError \<and>
   html_to_markdown converter_env body_bad url_A = Inl ValueError \<and>
   extract_links converter_env body_bad url_A = Inl ValueError \<and>
   fst (scrape_topic (fixture_env (answer_site [(url_A, body_bad)]) [(body_bad, tree_bad)])
          ''a'' 1 sys0) = Inl ValueError"
  by code_simp

end
